theory Spec2Isabelle
  imports Complex_Main "HOL-Library.Word"
begin

section \<open>JavaScript numbers\<close>

text \<open>
  Every number of \<^verbatim>\<open>src/App.jsx\<close> is an IEEE 754 double. A finite double is
  modelled by the rational it denotes, the two infinities and NaN are separate values.
  The two zeros are identified (the only zero divisor of the source, \<^verbatim>\<open>layerCount - 1\<close>,
  is \<open>+0\<close>, and no other operation of the source distinguishes them).
\<close>

datatype jsnum = Fin rat | PInf | NInf | NaN

text \<open>The number of binary digits of a positive integer.\<close>

function bitlen :: "int \<Rightarrow> int" where
  "bitlen n = (if n \<le> 0 then 0 else 1 + bitlen (n div 2))"
  by pat_completeness auto
termination
  by (relation "measure nat") auto

declare bitlen.simps [simp del]

definition pow2 :: "int \<Rightarrow> rat" where
  "pow2 e = (if 0 \<le> e then 2 ^ nat e else 1 / 2 ^ nat (- e))"

text \<open>\<open>ilog2 x\<close> is the binary exponent of a positive \<open>x\<close>: \<open>2 ^ e \<le> x < 2 ^ (e + 1)\<close>.\<close>

definition ilog2 :: "rat \<Rightarrow> int" where
  "ilog2 x = (if 1 \<le> x then bitlen \<lfloor>x\<rfloor> - 1 else - bitlen (\<lceil>1 / x\<rceil> - 1))"

definition roundHalfEven :: "rat \<Rightarrow> int" where
  "roundHalfEven x =
     (let f = \<lfloor>x\<rfloor>; d = x - of_int f
      in if d < 1 / 2 then f else if 1 / 2 < d then f + 1
         else if even f then f else f + 1)"

text \<open>
  Rounding to the nearest double, ties to even: 53 significant bits, the unit in the
  last place never below \<open>2 ^ - 1074\<close> (subnormal numbers).
\<close>

definition fl :: "rat \<Rightarrow> rat" where
  "fl x = (if x = 0 then 0
           else let u = pow2 (max (ilog2 \<bar>x\<bar>) (- 1022) - 52)
                in of_int (roundHalfEven (x / u)) * u)"

text \<open>The result of an arithmetic operation: rounded, and infinite from \<open>2 ^ 1024\<close> on.\<close>

definition toDouble :: "rat \<Rightarrow> jsnum" where
  "toDouble x = (let y = fl x
                 in if ilog2 \<bar>y\<bar> < 1024 then Fin y else if 0 < y then PInf else NInf)"

fun jsign :: "jsnum \<Rightarrow> int" where
  "jsign (Fin x) = (if x < 0 then - 1 else if x = 0 then 0 else 1)"
| "jsign PInf = 1"
| "jsign NInf = - 1"
| "jsign NaN = 0"

definition signedInf :: "int \<Rightarrow> jsnum" where
  "signedInf s = (if s = 0 then NaN else if 0 < s then PInf else NInf)"

fun js_mul :: "jsnum \<Rightarrow> jsnum \<Rightarrow> jsnum" where
  "js_mul NaN y = NaN"
| "js_mul x NaN = NaN"
| "js_mul (Fin x) (Fin y) = toDouble (x * y)"
| "js_mul x y = signedInf (jsign x * jsign y)"

fun js_add :: "jsnum \<Rightarrow> jsnum \<Rightarrow> jsnum" where
  "js_add NaN y = NaN"
| "js_add x NaN = NaN"
| "js_add (Fin x) (Fin y) = toDouble (x + y)"
| "js_add PInf NInf = NaN"
| "js_add NInf PInf = NaN"
| "js_add (Fin x) y = y"
| "js_add x y = x"

fun js_div :: "jsnum \<Rightarrow> jsnum \<Rightarrow> jsnum" where
  "js_div NaN y = NaN"
| "js_div x NaN = NaN"
| "js_div (Fin x) (Fin y) =
     (if y = 0 then signedInf (jsign (Fin x)) else toDouble (x / y))"
| "js_div (Fin x) y = Fin 0"
| "js_div x (Fin y) = signedInf (jsign x * (if y < 0 then - 1 else 1))"
| "js_div x y = NaN"

text \<open>The comparison \<^verbatim>\<open><\<close>: false as soon as one side is NaN.\<close>

fun js_lt :: "jsnum \<Rightarrow> jsnum \<Rightarrow> bool" where
  "js_lt NaN y = False"
| "js_lt x NaN = False"
| "js_lt (Fin x) (Fin y) = (x < y)"
| "js_lt x PInf = (x \<noteq> PInf)"
| "js_lt NInf y = (y \<noteq> NInf)"
| "js_lt x y = False"

text \<open>\<^verbatim>\<open>Math.floor\<close>, and \<^verbatim>\<open>Math.round\<close>, which rounds a half towards plus infinity.\<close>

fun Math_floor :: "jsnum \<Rightarrow> jsnum" where
  "Math_floor (Fin x) = Fin (of_int \<lfloor>x\<rfloor>)"
| "Math_floor x = x"

fun Math_round :: "jsnum \<Rightarrow> jsnum" where
  "Math_round (Fin x) = Fin (of_int \<lfloor>x + 1 / 2\<rfloor>)"
| "Math_round x = x"

text \<open>
  A store into the \<^verbatim>\<open>Uint8ClampedArray\<close> of an \<^verbatim>\<open>ImageData\<close>: NaN is stored as 0,
  every other number is clamped to \<open>[0, 255]\<close> and rounded to the nearest integer, ties to
  even.
\<close>

fun toUint8Clamped :: "jsnum \<Rightarrow> 8 word" where
  "toUint8Clamped (Fin x) = word_of_int (roundHalfEven (max 0 (min 255 x)))"
| "toUint8Clamped PInf = 255"
| "toUint8Clamped NInf = 0"
| "toUint8Clamped NaN = 0"

text \<open>An integer of the source, as the number it is.\<close>

definition num :: "int \<Rightarrow> jsnum" where
  "num k = Fin (of_int k)"

section \<open>Colours\<close>

record rgb =
  rgb_r :: jsnum
  rgb_g :: jsnum
  rgb_b :: jsnum

definition hexDigit :: "char \<Rightarrow> int option" where
  "hexDigit c =
     (let n = (of_char c :: nat)
      in if 48 \<le> n \<and> n \<le> 57 then Some (int n - 48)
         else if 97 \<le> n \<and> n \<le> 102 then Some (int n - 87)
         else if 65 \<le> n \<and> n \<le> 70 then Some (int n - 55)
         else None)"

text \<open>
  \<^verbatim>\<open>hexToRgb\<close>: an optional \<^verbatim>\<open>#\<close> and exactly six hexadecimal digits of either
  case; every other string is black.
\<close>

definition hexToRgb :: "string \<Rightarrow> rgb" where
  "hexToRgb hex =
     (case map hexDigit (case hex of CHR ''#'' # rest \<Rightarrow> rest | _ \<Rightarrow> hex) of
        [Some a, Some b, Some c, Some d, Some e, Some f] \<Rightarrow>
          \<lparr>rgb_r = num (16 * a + b), rgb_g = num (16 * c + d), rgb_b = num (16 * e + f)\<rparr>
      | _ \<Rightarrow> \<lparr>rgb_r = num 0, rgb_g = num 0, rgb_b = num 0\<rparr>)"

definition blendColors :: "rgb \<Rightarrow> rgb \<Rightarrow> rgb" where
  "blendColors bg fg =
     \<lparr>rgb_r = Math_floor (js_div (js_mul (rgb_r bg) (rgb_r fg)) (num 255)),
      rgb_g = Math_floor (js_div (js_mul (rgb_g bg) (rgb_g fg)) (num 255)),
      rgb_b = Math_floor (js_div (js_mul (rgb_b bg) (rgb_b fg)) (num 255))\<rparr>"

section \<open>The configuration of a render call\<close>

text \<open>
  The \<^verbatim>\<open>config\<close> object of \<^verbatim>\<open>renderToContext\<close>, without the fields that only steer
  the canvas (\<^verbatim>\<open>blurAmount\<close>, \<^verbatim>\<open>isCropping\<close>, \<^verbatim>\<open>cropRect\<close>). The three string
  switches are compared with one literal each (\<^verbatim>\<open>'composite'\<close>, \<^verbatim>\<open>'zone'\<close>,
  \<^verbatim>\<open>'multiply'\<close>), so each is a two-valued type. \<^verbatim>\<open>layerCount\<close>,
  \<^verbatim>\<open>selectedLayerIndex\<close> and the thresholds are integers (the controls produce nothing
  else).
\<close>

datatype tab = Composite | Layers

datatype cut_mode = Stack | Zone

datatype blend_mode = Normal | Multiply

record config =
  activeTab :: tab
  layerCount :: int
  thresholds :: "int list"
  selectedLayerIndex :: int
  inverted :: bool
  cutMode :: cut_mode
  isColorMode :: bool
  paperColor :: string
  inkColors :: "string list"
  blendMode :: blend_mode

text \<open>\<^verbatim>\<open>xs[k]\<close> for an integer \<open>k\<close>: \<^verbatim>\<open>undefined\<close> outside the array.\<close>

definition elemAt :: "'a list \<Rightarrow> int \<Rightarrow> 'a option" where
  "elemAt xs k = (if 0 \<le> k \<and> nat k < length xs then Some (xs ! nat k) else None)"

section \<open>The colour of each bucket\<close>

text \<open>The inner loop of the multiply branch: an ink that is not there is skipped.\<close>

definition inkLoop :: "rgb list \<Rightarrow> int \<Rightarrow> rgb \<Rightarrow> rgb" where
  "inkLoop inksRgb inksToApplyCount currentRGB =
     foldl (\<lambda>cur i. if i < length inksRgb then blendColors cur (inksRgb ! i) else cur)
       currentRGB [0..<nat inksToApplyCount]"

text \<open>
  One round of the loop over \<open>b\<close>. In the other branch the entry is \<^verbatim>\<open>undefined\<close>
  (\<open>None\<close>) when the ink list is too short.
\<close>

definition bucketColor :: "config \<Rightarrow> int \<Rightarrow> rgb option" where
  "bucketColor cfg b =
     (let bgRgb = hexToRgb (paperColor cfg);
          inksRgb = map hexToRgb (inkColors cfg);
          inksToApplyCount = (layerCount cfg - 1) - b
      in if blendMode cfg = Multiply then Some (inkLoop inksRgb inksToApplyCount bgRgb)
         else if 0 < inksToApplyCount then elemAt inksRgb (inksToApplyCount - 1)
         else Some bgRgb)"

definition bucketColors :: "config \<Rightarrow> rgb option list" where
  "bucketColors cfg =
     (if activeTab cfg = Composite \<and> isColorMode cfg
      then map (\<lambda>b. bucketColor cfg (int b)) [0..<nat (layerCount cfg)]
      else [])"

section \<open>One pixel\<close>

text \<open>\<^verbatim>\<open>data[k]\<close> as a number: \<^verbatim>\<open>undefined\<close> beyond the end, which is NaN in arithmetic.\<close>

definition byteNum :: "8 word \<Rightarrow> jsnum" where
  "byteNum v = Fin (of_nat (unat v))"

definition rd :: "8 word list \<Rightarrow> nat \<Rightarrow> jsnum" where
  "rd d k = (if k < length d then byteNum (d ! k) else NaN)"

text \<open>\<^verbatim>\<open>0.299 * r + 0.587 * g + 0.114 * b\<close>, every literal and every operation a double.\<close>

definition gray :: "jsnum \<Rightarrow> jsnum \<Rightarrow> jsnum \<Rightarrow> jsnum" where
  "gray r g b =
     js_add (js_add (js_mul (toDouble (299 / 1000)) r) (js_mul (toDouble (587 / 1000)) g))
            (js_mul (toDouble (114 / 1000)) b)"

text \<open>
  The scan of the sorted thresholds from index \<open>t\<close> on; \<open>bucketIndex\<close> is the value the
  variable has before the loop.
\<close>

fun bucketLoop :: "jsnum \<Rightarrow> int list \<Rightarrow> nat \<Rightarrow> int \<Rightarrow> int" where
  "bucketLoop gr [] t bucketIndex = bucketIndex"
| "bucketLoop gr (x # xs) t bucketIndex =
     (if js_lt gr (num x) then int t else bucketLoop gr xs (Suc t) bucketIndex)"

definition bucketIndexOf :: "config \<Rightarrow> int list \<Rightarrow> jsnum \<Rightarrow> int" where
  "bucketIndexOf cfg sortedThresholds gr =
     bucketLoop gr sortedThresholds 0 (layerCount cfg - 1)"

datatype error = TypeError

text \<open>\<^verbatim>\<open>isKeep ? 0 : 255\<close>, after the inversion.\<close>

definition keepOut :: "config \<Rightarrow> bool \<Rightarrow> 8 word" where
  "keepOut cfg isKeep =
     (let isKeep' = (if inverted cfg then \<not> isKeep else isKeep)
      in toUint8Clamped (num (if isKeep' then 0 else 255)))"

text \<open>
  The body of the processing loop for the channels \<open>r\<close>, \<open>g\<close>, \<open>b\<close> read from the
  buffer: the three bytes it stores, or the \<^verbatim>\<open>TypeError\<close> of \<^verbatim>\<open>c.r\<close> when the
  bucket has no colour.
\<close>

definition pixel ::
  "config \<Rightarrow> int list \<Rightarrow> rgb option list \<Rightarrow> jsnum \<Rightarrow> jsnum \<Rightarrow> jsnum
     \<Rightarrow> error + (8 word \<times> 8 word \<times> 8 word)" where
  "pixel cfg sortedThresholds bcs r g b =
     (let gr = gray r g b
      in if activeTab cfg = Composite then
           (let bucketIndex = bucketIndexOf cfg sortedThresholds gr
            in if isColorMode cfg then
                 (case elemAt bcs bucketIndex of
                    Some (Some c) \<Rightarrow>
                      Inr (toUint8Clamped (rgb_r c), toUint8Clamped (rgb_g c),
                           toUint8Clamped (rgb_b c))
                  | _ \<Rightarrow> Inl TypeError)
               else
                 (let val = Math_round
                        (js_mul (js_div (num bucketIndex) (num (layerCount cfg - 1))) (num 255))
                  in Inr (toUint8Clamped val, toUint8Clamped val, toUint8Clamped val)))
         else if cutMode cfg = Zone then
           (let bucketIndex = bucketIndexOf cfg sortedThresholds gr;
                targetBucket = (layerCount cfg - 1) - (selectedLayerIndex cfg + 1);
                out = keepOut cfg (bucketIndex = targetBucket)
            in Inr (out, out, out))
         else
           (let thresholdIndex = int (length sortedThresholds) - 1 - selectedLayerIndex cfg
            in if thresholdIndex < 0 then
                 Inr (toUint8Clamped (num 255), toUint8Clamped (num 255),
                      toUint8Clamped (num 255))
               else
                 (let cutThreshold = elemAt sortedThresholds thresholdIndex;
                      out = keepOut cfg
                        (case cutThreshold of None \<Rightarrow> False | Some c \<Rightarrow> js_lt gr (num c))
                  in Inr (out, out, out))))"

section \<open>The processing loop and the render\<close>

record imagedata =
  width :: nat
  height :: nat
  data :: "8 word list"

text \<open>
  \<^verbatim>\<open>for (let i = 0; i < data.length; i += 4)\<close>. A store beyond the end of a typed array
  does nothing, as \<open>list_update\<close> does.
\<close>

function processingLoop ::
  "config \<Rightarrow> int list \<Rightarrow> rgb option list \<Rightarrow> nat \<Rightarrow> 8 word list
     \<Rightarrow> error + 8 word list" where
  "processingLoop cfg sortedThresholds bcs i d =
     (if i < length d then
        (case pixel cfg sortedThresholds bcs (rd d i) (rd d (i + 1)) (rd d (i + 2)) of
           Inl e \<Rightarrow> Inl e
         | Inr (r', g', b') \<Rightarrow>
             processingLoop cfg sortedThresholds bcs (i + 4)
               (d[i := r', i + 1 := g', i + 2 := b']))
      else Inr d)"
  by pat_completeness auto
termination
  by (relation "measure (\<lambda>(cfg, sortedThresholds, bcs, i, d). length d - i)") auto

declare processingLoop.simps [simp del]

text \<open>
  The normal render mode of \<^verbatim>\<open>renderToContext\<close>, from the \<^verbatim>\<open>ImageData\<close> that
  \<^verbatim>\<open>getImageData\<close> returns to the one \<^verbatim>\<open>putImageData\<close> receives. An exception leaves
  the function before \<^verbatim>\<open>putImageData\<close>.
\<close>

definition renderToContext :: "config \<Rightarrow> imagedata \<Rightarrow> error + imagedata" where
  "renderToContext cfg imageData =
     (let sortedThresholds = sort (thresholds cfg);
          bcs = bucketColors cfg
      in case processingLoop cfg sortedThresholds bcs 0 (data imageData) of
           Inl e \<Rightarrow> Inl e
         | Inr d \<Rightarrow> Inr (imageData\<lparr>data := d\<rparr>))"

section \<open>The crop\<close>

text \<open>
  The part of the component state that \<^verbatim>\<open>applyCrop\<close> reads and writes. The rectangle
  is in whole pixels of the master image.
\<close>

record rect =
  rect_x :: int
  rect_y :: int
  rect_w :: int
  rect_h :: int

record app =
  originalImageRef :: "imagedata option"
  sourceImageRef :: "imagedata option"
  imageDimensions :: "int \<times> int"
  image :: "imagedata option"
  isCropping :: bool
  cropRect :: "rect option"

text \<open>
  The pixel \<open>(px, py)\<close> of an image as the canvas sees it: transparent black outside
  the image.
\<close>

definition sourcePixel :: "imagedata \<Rightarrow> int \<Rightarrow> int \<Rightarrow> 8 word list" where
  "sourcePixel img px py =
     (if 0 \<le> px \<and> px < int (width img) \<and> 0 \<le> py \<and> py < int (height img)
      then (let k = 4 * (nat py * width img + nat px)
            in map (\<lambda>c. if k + c < length (data img) then data img ! (k + c) else 0)
                 [0, 1, 2, 3])
      else [0, 0, 0, 0])"

text \<open>
  A fresh canvas of \<open>sw\<close> by \<open>sh\<close> pixels after
  \<^verbatim>\<open>drawImage(master, sx, sy, sw, sh, 0, 0, sw, sh)\<close>: a copy of the region, pixel by
  pixel, and what lies outside the master is left as the canvas was.
\<close>

definition drawImage :: "imagedata \<Rightarrow> int \<Rightarrow> int \<Rightarrow> int \<Rightarrow> int \<Rightarrow> imagedata" where
  "drawImage master sx sy sw sh =
     \<lparr>width = nat sw, height = nat sh,
      data = concat (map (\<lambda>j. concat (map (\<lambda>i. sourcePixel master (sx + int i) (sy + int j))
                                    [0..<nat sw]))
                      [0..<nat sh])\<rparr>"

text \<open>\<^verbatim>\<open>applyCrop\<close>, with the state as it is once the new image has loaded.\<close>

definition applyCrop :: "app \<Rightarrow> app" where
  "applyCrop st =
     (case (cropRect st, originalImageRef st) of
        (Some rc, Some master) \<Rightarrow>
          (let x = rect_x rc; y = rect_y rc; w = rect_w rc; h = rect_h rc
           in if w = 0 \<or> h = 0 then st
              else
                (let finalX = (if w < 0 then x + w else x);
                     finalY = (if h < 0 then y + h else y);
                     finalW = \<bar>w\<bar>;
                     finalH = \<bar>h\<bar>;
                     newImg = drawImage master finalX finalY finalW finalH
                 in st\<lparr>sourceImageRef := Some newImg,
                        imageDimensions := (finalW, finalH),
                        image := Some newImg,
                        isCropping := False\<rparr>))
      | _ \<Rightarrow> st)"

section \<open>Notions of the specification\<close>

text \<open>The luminance of a pixel, as the processing loop computes it from the three bytes.\<close>

definition luminance :: "8 word \<Rightarrow> 8 word \<Rightarrow> 8 word \<Rightarrow> jsnum" where
  "luminance r g b = gray (byteNum r) (byteNum g) (byteNum b)"

text \<open>The pixel number \<open>p\<close> of a buffer: red, green, blue, alpha.\<close>

definition pixelAt :: "8 word list \<Rightarrow> nat \<Rightarrow> 8 word \<times> 8 word \<times> 8 word \<times> 8 word" where
  "pixelAt d p = (d ! (4 * p), d ! (4 * p + 1), d ! (4 * p + 2), d ! (4 * p + 3))"

text \<open>
  The normalised rectangle of the specification: \<open>x' = x + w\<close> and \<open>w' = |w|\<close> when
  \<open>w < 0\<close>, the same for \<open>y\<close> and \<open>h\<close>.
\<close>

definition normalizedRect :: "rect \<Rightarrow> rect" where
  "normalizedRect rc =
     \<lparr>rect_x = (if rect_w rc < 0 then rect_x rc + rect_w rc else rect_x rc),
      rect_y = (if rect_h rc < 0 then rect_y rc + rect_h rc else rect_y rc),
      rect_w = \<bar>rect_w rc\<bar>,
      rect_h = \<bar>rect_h rc\<bar>\<rparr>"

text \<open>A colour with whole-number channels.\<close>

definition rgbOf :: "int \<Rightarrow> int \<Rightarrow> int \<Rightarrow> rgb" where
  "rgbOf r g b = \<lparr>rgb_r = num r, rgb_g = num g, rgb_b = num b\<rparr>"

text \<open>
  The scenario of the specification: three layers, the thresholds 85 and 170, and a uniform
  image of four by four pixels \<open>(128, 128, 128, 255)\<close>.
\<close>

definition scenarioConfig :: config where
  "scenarioConfig =
     \<lparr>activeTab = Composite, layerCount = 3, thresholds = [85, 170], selectedLayerIndex = 0,
      inverted = False, cutMode = Stack, isColorMode = False, paperColor = ''#ffffff'',
      inkColors = [''#facc15'', ''#ef4444''], blendMode = Multiply\<rparr>"

definition scenarioImage :: imagedata where
  "scenarioImage = \<lparr>width = 4, height = 4, data = concat (replicate 16 [128, 128, 128, 255])\<rparr>"

text \<open>
  The luminance and the bucket in the words of the specification: the weighted sum as a
  number, without rounding, and the index of the first threshold strictly above it, or
  \<open>layerCount - 1\<close> when there is none.
\<close>

definition specLuminance :: "8 word \<Rightarrow> 8 word \<Rightarrow> 8 word \<Rightarrow> rat" where
  "specLuminance r g b =
     299 / 1000 * of_nat (unat r) + 587 / 1000 * of_nat (unat g) + 114 / 1000 * of_nat (unat b)"

fun firstGreater :: "rat \<Rightarrow> int list \<Rightarrow> nat option" where
  "firstGreater L [] = None"
| "firstGreater L (x # xs) =
     (if L < of_int x then Some 0 else map_option Suc (firstGreater L xs))"

definition specBucket :: "int \<Rightarrow> int list \<Rightarrow> rat \<Rightarrow> int" where
  "specBucket n S L = (case firstGreater L S of Some t \<Rightarrow> int t | None \<Rightarrow> n - 1)"

text \<open>A bound on the rounding error of one operation whose result is below 1024.\<close>

definition roundingError :: rat where
  "roundingError = 1 / 2 ^ 43"

text \<open>
  Four layers with the thresholds the component sets for them, \<open>round (255 / 4 * i)\<close>.
\<close>

definition fourLayerConfig :: config where
  "fourLayerConfig =
     scenarioConfig\<lparr>layerCount := 4, thresholds := [64, 128, 191],
       inkColors := [''#facc15'', ''#ef4444'', ''#1e40af'']\<rparr>"

text \<open>
  A malformed configuration, in the words of the specification: fewer than two layers, a
  number of thresholds or of inks other than \<open>layerCount - 1\<close>, or a step outside
  \<open>[0, layerCount - 2]\<close>.
\<close>

definition malformedConfiguration :: "config \<Rightarrow> bool" where
  "malformedConfiguration cfg =
     (layerCount cfg < 2
      \<or> int (length (thresholds cfg)) \<noteq> layerCount cfg - 1
      \<or> selectedLayerIndex cfg < 0 \<or> layerCount cfg - 2 < selectedLayerIndex cfg
      \<or> int (length (inkColors cfg)) \<noteq> layerCount cfg - 1)"

text \<open>The scenario with one threshold too few, and an image of one pixel.\<close>

definition shortConfig :: config where
  "shortConfig = scenarioConfig\<lparr>thresholds := [85]\<rparr>"

definition onePixel :: imagedata where
  "onePixel = \<lparr>width = 1, height = 1, data = [128, 128, 128, 255]\<rparr>"

text \<open>
  A component state for the crop: a master image of two by two pixels, shown uncropped.
\<close>

definition masterImage :: imagedata where
  "masterImage =
     \<lparr>width = 2, height = 2,
      data = [1, 2, 3, 4, 5, 6, 7, 8, 9, 10, 11, 12, 13, 14, 15, 16]\<rparr>"

definition cropState :: app where
  "cropState =
     \<lparr>originalImageRef = Some masterImage, sourceImageRef = Some masterImage,
      imageDimensions = (2, 2), image = Some masterImage, isCropping = True,
      cropRect = Some \<lparr>rect_x = 0, rect_y = 0, rect_w = 2, rect_h = 2\<rparr>\<rparr>"

section \<open>Properties of the processing loop\<close>

lemma processingLoop_step:
  assumes "i < length d" and "processingLoop cfg S bcs i d = Inr out"
  obtains r' g' b' where
    "pixel cfg S bcs (rd d i) (rd d (i + 1)) (rd d (i + 2)) = Inr (r', g', b')"
    "processingLoop cfg S bcs (i + 4) (d[i := r', i + 1 := g', i + 2 := b']) = Inr out"
  using assms by (subst (asm) processingLoop.simps) (auto split: sum.splits)

lemma processingLoop_done:
  "\<not> i < length d \<Longrightarrow> processingLoop cfg S bcs i d = Inr d"
  by (subst processingLoop.simps) simp

lemma processingLoop_length:
  "processingLoop cfg S bcs i d = Inr out \<Longrightarrow> length out = length d"
proof (induction cfg S bcs i d rule: processingLoop.induct)
  case (1 cfg S bcs i d)
  show ?case
  proof (cases "i < length d")
    case True
    from processingLoop_step [OF True "1.prems"] obtain r' g' b' where
      px: "pixel cfg S bcs (rd d i) (rd d (i + 1)) (rd d (i + 2)) = Inr (r', g', b')"
      and rec: "processingLoop cfg S bcs (i + 4) (d[i := r', i + 1 := g', i + 2 := b']) = Inr out"
      by blast
    from "1.IH" [OF True px refl refl rec] show ?thesis by simp
  next
    case False
    with "1.prems" show ?thesis by (simp add: processingLoop_done)
  qed
qed

lemma processingLoop_prefix:
  "processingLoop cfg S bcs i d = Inr out \<Longrightarrow> k < i \<Longrightarrow> out ! k = d ! k"
proof (induction cfg S bcs i d rule: processingLoop.induct)
  case (1 cfg S bcs i d)
  show ?case
  proof (cases "i < length d")
    case True
    from processingLoop_step [OF True "1.prems"(1)] obtain r' g' b' where
      px: "pixel cfg S bcs (rd d i) (rd d (i + 1)) (rd d (i + 2)) = Inr (r', g', b')"
      and rec: "processingLoop cfg S bcs (i + 4) (d[i := r', i + 1 := g', i + 2 := b']) = Inr out"
      by blast
    from "1.prems"(2) have "k < i + 4" by simp
    from "1.IH" [OF True px refl refl rec this] "1.prems"(2) show ?thesis by simp
  next
    case False
    with "1.prems" show ?thesis by (simp add: processingLoop_done)
  qed
qed

lemma processingLoop_alpha:
  "processingLoop cfg S bcs i d = Inr out \<Longrightarrow> i mod 4 = 0 \<Longrightarrow> k mod 4 = 3 \<Longrightarrow> out ! k = d ! k"
proof (induction cfg S bcs i d rule: processingLoop.induct)
  case (1 cfg S bcs i d)
  show ?case
  proof (cases "i < length d")
    case True
    from processingLoop_step [OF True "1.prems"(1)] obtain r' g' b' where
      px: "pixel cfg S bcs (rd d i) (rd d (i + 1)) (rd d (i + 2)) = Inr (r', g', b')"
      and rec: "processingLoop cfg S bcs (i + 4) (d[i := r', i + 1 := g', i + 2 := b']) = Inr out"
      by blast
    from "1.prems"(2) have m: "(i + 4) mod 4 = 0" by simp
    have ne: "k \<noteq> i" "k \<noteq> i + 1" "k \<noteq> i + 2"
      using "1.prems"(2,3) by presburger+
    from "1.IH" [OF True px refl refl rec m "1.prems"(3)] ne show ?thesis by simp
  next
    case False
    with "1.prems" show ?thesis by (simp add: processingLoop_done)
  qed
qed

lemma processingLoop_pixel:
  "processingLoop cfg S bcs i d = Inr out \<Longrightarrow> i \<le> j \<Longrightarrow> (j - i) mod 4 = 0 \<Longrightarrow>
   j + 3 < length d \<Longrightarrow>
   pixel cfg S bcs (rd d j) (rd d (j + 1)) (rd d (j + 2)) = Inr (out ! j, out ! (j + 1), out ! (j + 2))"
proof (induction cfg S bcs i d rule: processingLoop.induct)
  case (1 cfg S bcs i d)
  from "1.prems"(2,4) have True: "i < length d" by simp
  from processingLoop_step [OF True "1.prems"(1)] obtain r' g' b' where
    px: "pixel cfg S bcs (rd d i) (rd d (i + 1)) (rd d (i + 2)) = Inr (r', g', b')"
    and rec: "processingLoop cfg S bcs (i + 4) (d[i := r', i + 1 := g', i + 2 := b']) = Inr out"
    by blast
  let ?d' = "d[i := r', i + 1 := g', i + 2 := b']"
  show ?case
  proof (cases "j = i")
    case True
    have "out ! i = ?d' ! i" "out ! (i + 1) = ?d' ! (i + 1)" "out ! (i + 2) = ?d' ! (i + 2)"
      using processingLoop_prefix [OF rec] by simp_all
    with px True "1.prems"(4) show ?thesis by simp
  next
    case False
    with "1.prems"(2,3) have ge: "i + 4 \<le> j" and m: "(j - (i + 4)) mod 4 = 0"
      by presburger+
    from "1.prems"(4) have len: "j + 3 < length ?d'" by simp
    have same: "rd ?d' j = rd d j" "rd ?d' (j + 1) = rd d (j + 1)" "rd ?d' (j + 2) = rd d (j + 2)"
      using ge by (simp_all add: rd_def)
    from "1.IH" [OF True px refl refl rec ge m len] same show ?thesis by simp
  qed
qed

lemma processingLoop_total:
  "(\<And>r g b. \<exists>t. pixel cfg S bcs r g b = Inr t) \<Longrightarrow>
   \<exists>out. processingLoop cfg S bcs i d = Inr out"
proof (induction cfg S bcs i d rule: processingLoop.induct)
  case (1 cfg S bcs i d)
  show ?case
  proof (cases "i < length d")
    case True
    from "1.prems" obtain r' g' b' where
      px: "pixel cfg S bcs (rd d i) (rd d (i + 1)) (rd d (i + 2)) = Inr (r', g', b')"
      by (metis prod_cases3)
    from "1.IH" [OF True px refl refl "1.prems"] obtain out where
      "processingLoop cfg S bcs (i + 4) (d[i := r', i + 1 := g', i + 2 := b']) = Inr out"
      by blast
    with True px show ?thesis by (subst processingLoop.simps) simp
  next
    case False
    then show ?thesis by (simp add: processingLoop_done)
  qed
qed

section \<open>Properties of the render\<close>

lemma toUint8Clamped_0: "toUint8Clamped (num 0) = 0"
  by (simp add: num_def roundHalfEven_def)

lemma toUint8Clamped_255: "toUint8Clamped (num 255) = 255"
  by (simp add: num_def roundHalfEven_def)

lemma keepOut_eq: "keepOut cfg k = (if k \<noteq> inverted cfg then 0 else 255)"
  by (simp add: keepOut_def toUint8Clamped_0 toUint8Clamped_255)

lemma pixel_cut_total:
  "activeTab cfg = Layers \<Longrightarrow> \<exists>t. pixel cfg S bcs r g b = Inr t"
  by (simp add: pixel_def Let_def)

lemma pixel_gray_total:
  "\<not> isColorMode cfg \<Longrightarrow> \<exists>t. pixel cfg S bcs r g b = Inr t"
  by (simp add: pixel_def Let_def)

lemma renderToContext_total:
  assumes "\<And>r g b. \<exists>t. pixel cfg (sort (thresholds cfg)) (bucketColors cfg) r g b = Inr t"
  shows "\<exists>out. renderToContext cfg img = Inr out"
proof -
  from processingLoop_total [OF assms] obtain d where
    "processingLoop cfg (sort (thresholds cfg)) (bucketColors cfg) 0 (data img) = Inr d"
    by blast
  then show ?thesis by (simp add: renderToContext_def)
qed

lemma renderToContext_Inr:
  assumes "renderToContext cfg img = Inr out"
  shows "processingLoop cfg (sort (thresholds cfg)) (bucketColors cfg) 0 (data img) = Inr (data out)"
    and "width out = width img" and "height out = height img"
  using assms by (auto simp: renderToContext_def Let_def split: sum.splits)

lemma renderToContext_length:
  "renderToContext cfg img = Inr out \<Longrightarrow> length (data out) = length (data img)"
  by (rule processingLoop_length [OF renderToContext_Inr(1)])

lemma renderToContext_pixel:
  assumes "renderToContext cfg img = Inr out" and "4 * p + 3 < length (data img)"
      and "pixelAt (data img) p = (r, g, b, a)"
  shows "\<exists>r' g' b'.
           pixel cfg (sort (thresholds cfg)) (bucketColors cfg) (byteNum r) (byteNum g) (byteNum b)
             = Inr (r', g', b') \<and>
           pixelAt (data out) p = (r', g', b', a)"
proof -
  let ?d = "data img"
  note loop = renderToContext_Inr(1) [OF assms(1)]
  from assms(3) have rgba: "?d ! (4 * p) = r" "?d ! (4 * p + 1) = g" "?d ! (4 * p + 2) = b"
    "?d ! (4 * p + 3) = a"
    by (simp_all add: pixelAt_def)
  from assms(2) rgba have reads: "rd ?d (4 * p) = byteNum r" "rd ?d (4 * p + 1) = byteNum g"
    "rd ?d (4 * p + 2) = byteNum b"
    by (simp_all add: rd_def)
  have "pixel cfg (sort (thresholds cfg)) (bucketColors cfg)
          (rd ?d (4 * p)) (rd ?d (4 * p + 1)) (rd ?d (4 * p + 2))
        = Inr (data out ! (4 * p), data out ! (4 * p + 1), data out ! (4 * p + 2))"
    using processingLoop_pixel [OF loop, of "4 * p"] assms(2) by simp
  moreover have "data out ! (4 * p + 3) = ?d ! (4 * p + 3)"
    by (rule processingLoop_alpha [OF loop]) simp_all
  ultimately show ?thesis
    using reads rgba by (simp add: pixelAt_def)
qed

lemma bucketLoop_takeWhile:
  "bucketLoop L xs t dflt =
     (let n = length (takeWhile (\<lambda>x. \<not> js_lt L (num x)) xs)
      in if n < length xs then int (t + n) else dflt)"
  by (induction xs arbitrary: t) (simp_all add: Let_def)

lemma bucketLoop_first:
  assumes "t < length S" and "js_lt L (num (S ! t))" and "\<forall>j<t. \<not> js_lt L (num (S ! j))"
  shows "bucketLoop L S 0 dflt = int t"
proof -
  let ?P = "\<lambda>x. \<not> js_lt L (num x)"
  have "t \<le> length (takeWhile ?P S)"
    using assms(1,3) by (intro length_takeWhile_less_P_nth) auto
  moreover have "\<not> t < length (takeWhile ?P S)"
  proof
    assume lt: "t < length (takeWhile ?P S)"
    then have "takeWhile ?P S ! t \<in> set (takeWhile ?P S)" by simp
    then have "?P (takeWhile ?P S ! t)" by (rule set_takeWhileD [THEN conjunct2])
    moreover from lt have "takeWhile ?P S ! t = S ! t" by (rule takeWhile_nth)
    ultimately show False using assms(2) by simp
  qed
  ultimately have "length (takeWhile ?P S) = t" by simp
  with assms(1) show ?thesis by (simp add: bucketLoop_takeWhile)
qed

lemma bucketLoop_none:
  assumes "\<forall>t<length S. \<not> js_lt L (num (S ! t))"
  shows "bucketLoop L S 0 dflt = dflt"
proof -
  have eq: "takeWhile (\<lambda>x. \<not> js_lt L (num x)) S = S"
    using assms by (auto simp: in_set_conv_nth)
  show ?thesis by (simp add: bucketLoop_takeWhile eq)
qed


section \<open>The bucket of a pixel\<close>

lemma gray_0: "gray (Fin 0) (Fin 0) (Fin 0) = Fin 0"
  by code_simp

lemma gray_128: "gray (Fin 128) (Fin 128) (Fin 128) = Fin (9007199254740991 / 70368744177664)"
  by code_simp

lemma luminance_0: "luminance 0 0 0 = num 0"
  by (simp add: luminance_def byteNum_def gray_0 num_def)

lemma luminance_128: "luminance 128 128 128 = Fin (9007199254740991 / 70368744177664)"
  by (simp add: luminance_def byteNum_def gray_128)

text \<open>
  The weights do not add up to 1 in double precision, so the luminance of a grey pixel
  \<open>(v, v, v)\<close> can lie just below \<open>v\<close>: that of \<open>(128, 128, 128)\<close> is \<open>128 - 2 ^ - 46\<close>,
  below a threshold of 128.
\<close>

lemma luminance_128_below: "js_lt (luminance 128 128 128) (num 128)"
  by (simp add: luminance_128 num_def)

lemma bucketLoop_tie:
  assumes "sorted S" and "t < length S" and "L = num (S ! t)"
  shows "int t < bucketLoop L S 0 (int (length S))"
    and "distinct S \<Longrightarrow> bucketLoop L S 0 (int (length S)) = int t + 1"
proof -
  have le: "\<not> js_lt L (num (S ! j))" if "j \<le> t" for j
  proof -
    from assms(1,2) that have "S ! j \<le> S ! t" by (simp add: sorted_nth_mono)
    with assms(3) show ?thesis by (simp add: num_def)
  qed
  let ?P = "\<lambda>x. \<not> js_lt L (num x)"
  have "Suc t \<le> length (takeWhile ?P S)"
    using assms(2) le by (intro length_takeWhile_less_P_nth) auto
  then show "int t < bucketLoop L S 0 (int (length S))"
    using assms(2) by (simp add: bucketLoop_takeWhile Let_def)
  assume d: "distinct S"
  show "bucketLoop L S 0 (int (length S)) = int t + 1"
  proof (cases "Suc t < length S")
    case True
    with assms(1) have "S ! t \<le> S ! Suc t" by (simp add: sorted_nth_mono)
    moreover from d True have "S ! t \<noteq> S ! Suc t" by (simp add: nth_eq_iff_index_eq)
    ultimately have "js_lt L (num (S ! Suc t))" using assms(3) by (simp add: num_def)
    moreover have "\<forall>j<Suc t. \<not> js_lt L (num (S ! j))" using le by simp
    ultimately have "bucketLoop L S 0 (int (length S)) = int (Suc t)"
      using True by (intro bucketLoop_first) auto
    then show ?thesis by simp
  next
    case False
    with assms(2) have len: "length S = Suc t" by simp
    have "\<forall>j<length S. \<not> js_lt L (num (S ! j))" using le len by simp
    then have "bucketLoop L S 0 (int (length S)) = int (length S)" by (rule bucketLoop_none)
    with len show ?thesis by simp
  qed
qed

section \<open>The cut guides\<close>

lemma pixel_stack:
  assumes "activeTab cfg = Layers" and "cutMode cfg = Stack"
    and "thresholdIndex = int (length S) - 1 - selectedLayerIndex cfg"
  shows "thresholdIndex < 0 \<Longrightarrow> pixel cfg S bcs r g b = Inr (255, 255, 255)"
    and "\<not> thresholdIndex < 0 \<Longrightarrow> elemAt S thresholdIndex = Some c \<Longrightarrow>
         pixel cfg S bcs r g b =
           (if js_lt (gray r g b) (num c) \<noteq> inverted cfg then Inr (0, 0, 0)
            else Inr (255, 255, 255))"
    and "\<not> thresholdIndex < 0 \<Longrightarrow> elemAt S thresholdIndex = None \<Longrightarrow>
         pixel cfg S bcs r g b = (if inverted cfg then Inr (0, 0, 0) else Inr (255, 255, 255))"
  using assms by (simp_all add: pixel_def Let_def keepOut_eq toUint8Clamped_255)

lemma pixel_zone:
  "activeTab cfg = Layers \<Longrightarrow> cutMode cfg = Zone \<Longrightarrow>
   pixel cfg S bcs r g b =
     (let out = (if (bucketIndexOf cfg S (gray r g b)
                      = (layerCount cfg - 1) - (selectedLayerIndex cfg + 1)) \<noteq> inverted cfg
                 then 0 else 255)
      in Inr (out, out, out))"
  by (simp add: pixel_def Let_def keepOut_eq)

lemma pixel_cut_bitonal:
  assumes "activeTab cfg = Layers"
  shows "pixel cfg S bcs r g b = Inr (0, 0, 0) \<or> pixel cfg S bcs r g b = Inr (255, 255, 255)"
proof (cases "cutMode cfg")
  case Stack
  let ?ti = "int (length S) - 1 - selectedLayerIndex cfg"
  show ?thesis
  proof (cases "?ti < 0")
    case True
    then show ?thesis by (simp add: pixel_stack(1) [OF assms Stack refl])
  next
    case False
    then show ?thesis
      by (cases "elemAt S ?ti") (simp_all add: pixel_stack(2,3) [OF assms Stack refl])
  qed
next
  case Zone
  then show ?thesis by (simp add: pixel_zone [OF assms] Let_def)
qed



lemma pixelAt_uniform:
  "p < n \<Longrightarrow> pixelAt (concat (replicate n [r, g, b, a])) p = (r, g, b, a)"
proof (induction n arbitrary: p)
  case 0
  then show ?case by simp
next
  case (Suc n)
  show ?case
  proof (cases p)
    case 0
    then show ?thesis by (simp add: pixelAt_def)
  next
    case (Suc q)
    with Suc.prems have "q < n" by simp
    from Suc.IH [OF this] Suc show ?thesis
      by (simp add: pixelAt_def nth_append add.commute)
  qed
qed

lemma scenarioImage_pixel:
  "p < 16 \<Longrightarrow> 4 * p + 3 < length (data scenarioImage) \<and>
     pixelAt (data scenarioImage) p = (128, 128, 128, 255)"
  by (simp add: scenarioImage_def pixelAt_uniform length_concat sum_list_replicate)





text \<open>
  C7. Every cut guide, of either strategy, for every layer count, step and inversion, is
  bitonal: the render returns a buffer of the same dimensions in which every pixel is
  \<open>(0, 0, 0)\<close> or \<open>(255, 255, 255)\<close> with the alpha byte of the input.
\<close>

theorem cut_guide_bitonal:
  assumes "activeTab cfg = Layers"
  shows "\<exists>out. renderToContext cfg img = Inr out
    \<and> width out = width img \<and> height out = height img
    \<and> length (data out) = length (data img)
    \<and> (\<forall>p r g b a. 4 * p + 3 < length (data img) \<and> pixelAt (data img) p = (r, g, b, a) \<longrightarrow>
         pixelAt (data out) p = (0, 0, 0, a) \<or> pixelAt (data out) p = (255, 255, 255, a))"
proof -
  from renderToContext_total [of cfg img] pixel_cut_total [OF assms(1)]
  obtain out where out: "renderToContext cfg img = Inr out" by blast
  have "pixelAt (data out) p = (0, 0, 0, a) \<or> pixelAt (data out) p = (255, 255, 255, a)"
    if "4 * p + 3 < length (data img)" "pixelAt (data img) p = (r, g, b, a)" for p r g b a
  proof -
    from renderToContext_pixel [OF out that] obtain r' g' b' where
      px: "pixel cfg (sort (thresholds cfg)) (bucketColors cfg) (byteNum r) (byteNum g) (byteNum b)
             = Inr (r', g', b')"
      and pa: "pixelAt (data out) p = (r', g', b', a)"
      by blast
    from px pa pixel_cut_bitonal [OF assms, of "sort (thresholds cfg)" "bucketColors cfg"
        "byteNum r" "byteNum g" "byteNum b"]
    show ?thesis by auto
  qed
  with out renderToContext_Inr(2,3) [OF out] renderToContext_length [OF out]
  show ?thesis by blast
qed

theorem cut_guide_bitonal_witness:
  "activeTab (scenarioConfig\<lparr>activeTab := Layers\<rparr>) = Layers
   \<and> 4 * 15 + 3 < length (data scenarioImage)
   \<and> (\<exists>out. renderToContext (scenarioConfig\<lparr>activeTab := Layers\<rparr>) scenarioImage = Inr out
        \<and> width out = 4 \<and> height out = 4 \<and> length (data out) = 64
        \<and> (pixelAt (data out) 15 = (0, 0, 0, 255) \<or> pixelAt (data out) 15 = (255, 255, 255, 255)))"
proof -
  let ?cfg = "scenarioConfig\<lparr>activeTab := Layers\<rparr>"
  have h: "activeTab ?cfg = Layers"
    by (simp add: scenarioConfig_def)
  from scenarioImage_pixel [of 15]
  have p: "4 * 15 + 3 < length (data scenarioImage)
     \<and> pixelAt (data scenarioImage) 15 = (128, 128, 128, 255)"
    by simp
  have dims: "width scenarioImage = 4" "height scenarioImage = 4"
    "length (data scenarioImage) = 64"
    by (simp_all add: scenarioImage_def length_concat sum_list_replicate)
  from cut_guide_bitonal [OF h, of scenarioImage] p h dims show ?thesis
    by (metis (no_types, lifting))
qed

lemma processingLoop_cong:
  "(\<And>r g b. pixel cfg S bcs r g b = pixel cfg' S' bcs' r g b) \<Longrightarrow>
   processingLoop cfg S bcs i d = processingLoop cfg' S' bcs' i d"
proof (induction cfg S bcs i d rule: processingLoop.induct)
  case (1 cfg S bcs i d)
  show ?case
  proof (cases "i < length d")
    case True
    show ?thesis
    proof (cases "pixel cfg S bcs (rd d i) (rd d (i + 1)) (rd d (i + 2))")
      case (Inl e)
      with True "1.prems" show ?thesis
        by (subst processingLoop.simps, subst (2) processingLoop.simps) simp
    next
      case (Inr t)
      obtain r' g' b' where t: "t = (r', g', b')" by (cases t)
      from "1.IH" [OF True Inr [unfolded t] refl refl "1.prems"] True Inr t "1.prems"
      show ?thesis
        by (subst processingLoop.simps, subst (2) processingLoop.simps) simp
    qed
  next
    case False
    then show ?thesis by (simp add: processingLoop_done)
  qed
qed

text \<open>
  C10. Stack cut guide with as many thresholds as \<open>layerCount - 1\<close>: when
  \<open>thresholdIndex = (layerCount - 2) - selectedStep\<close> is negative, every pixel becomes white
  whatever \<open>inverted\<close> is, and the render with \<open>inverted\<close> flipped returns the same buffer.
\<close>

theorem stack_negative_index_white:
  assumes "activeTab cfg = Layers" and "cutMode cfg = Stack"
    and "int (length (thresholds cfg)) = layerCount cfg - 1"
    and "(layerCount cfg - 2) - selectedLayerIndex cfg < 0"
  shows "\<exists>out. renderToContext cfg img = Inr out
    \<and> renderToContext (cfg\<lparr>inverted := \<not> inverted cfg\<rparr>) img = Inr out
    \<and> (\<forall>p r g b a. 4 * p + 3 < length (data img) \<and> pixelAt (data img) p = (r, g, b, a) \<longrightarrow>
         pixelAt (data out) p = (255, 255, 255, a))"
proof -
  let ?S = "sort (thresholds cfg)"
  let ?cfg' = "cfg\<lparr>inverted := \<not> inverted cfg\<rparr>"
  let ?ti = "(layerCount cfg - 2) - selectedLayerIndex cfg"
  from renderToContext_total [of cfg img] pixel_cut_total [OF assms(1)]
  obtain out where out: "renderToContext cfg img = Inr out" by blast
  have ti: "?ti = int (length ?S) - 1 - selectedLayerIndex cfg"
    using assms(3) by simp
  have ti': "?ti = int (length ?S) - 1 - selectedLayerIndex ?cfg'"
    using assms(3) by simp
  have white: "pixel cfg ?S bcs r g b = Inr (255, 255, 255)" for bcs r g b
    by (rule pixel_stack(1) [OF assms(1,2) ti assms(4)])
  have white': "pixel ?cfg' ?S bcs r g b = Inr (255, 255, 255)" for bcs r g b
    by (rule pixel_stack(1) [OF _ _ ti' assms(4)]) (simp_all add: assms(1,2))
  have "processingLoop ?cfg' ?S (bucketColors ?cfg') 0 (data img)
          = processingLoop cfg ?S (bucketColors cfg) 0 (data img)"
    by (rule processingLoop_cong) (simp add: white white')
  then have same: "renderToContext ?cfg' img = renderToContext cfg img"
    by (simp add: renderToContext_def)
  have "pixelAt (data out) p = (255, 255, 255, a)"
    if "4 * p + 3 < length (data img)" "pixelAt (data img) p = (r, g, b, a)" for p r g b a
    using renderToContext_pixel [OF out that] by (simp add: white)
  with out same show ?thesis by simp
qed

theorem stack_negative_index_white_witness:
  "activeTab (scenarioConfig\<lparr>activeTab := Layers, selectedLayerIndex := 2\<rparr>) = Layers
   \<and> (layerCount (scenarioConfig\<lparr>activeTab := Layers, selectedLayerIndex := 2\<rparr>) - 2)
        - selectedLayerIndex (scenarioConfig\<lparr>activeTab := Layers, selectedLayerIndex := 2\<rparr>) < 0
   \<and> 4 * 5 + 3 < length (data scenarioImage)
   \<and> (\<exists>out.
         renderToContext (scenarioConfig\<lparr>activeTab := Layers, selectedLayerIndex := 2\<rparr>)
           scenarioImage = Inr out
       \<and> renderToContext
           (scenarioConfig\<lparr>activeTab := Layers, selectedLayerIndex := 2, inverted := True\<rparr>)
           scenarioImage = Inr out
       \<and> pixelAt (data out) 5 = (255, 255, 255, 255))"
proof -
  let ?cfg = "scenarioConfig\<lparr>activeTab := Layers, selectedLayerIndex := 2\<rparr>"
  have h: "activeTab ?cfg = Layers" "cutMode ?cfg = Stack"
    "int (length (thresholds ?cfg)) = layerCount ?cfg - 1"
    "(layerCount ?cfg - 2) - selectedLayerIndex ?cfg < 0"
    by (simp_all add: scenarioConfig_def)
  have i: "?cfg\<lparr>inverted := \<not> inverted ?cfg\<rparr>
      = scenarioConfig\<lparr>activeTab := Layers, selectedLayerIndex := 2, inverted := True\<rparr>"
    by (simp add: scenarioConfig_def)
  from scenarioImage_pixel [of 5]
  have p: "4 * 5 + 3 < length (data scenarioImage)
     \<and> pixelAt (data scenarioImage) 5 = (128, 128, 128, 255)"
    by simp
  from stack_negative_index_white [OF h, of scenarioImage] obtain out where
    "renderToContext ?cfg scenarioImage = Inr out"
    "renderToContext (?cfg\<lparr>inverted := \<not> inverted ?cfg\<rparr>) scenarioImage = Inr out"
    "\<And>p r g b a. 4 * p + 3 < length (data scenarioImage) \<and>
        pixelAt (data scenarioImage) p = (r, g, b, a) \<Longrightarrow> pixelAt (data out) p = (255, 255, 255, a)"
    by blast
  with p h(1,4) show ?thesis unfolding i by blast
qed

text \<open>
  C6. Cut guide of either strategy, with at least two layers, as many thresholds as
  \<open>layerCount - 1\<close> and a step between 0 and \<open>layerCount - 2\<close>: the render with
  \<open>inverted\<close> flipped is the complement, pixel by pixel: a black pixel of one is a white
  pixel of the other, and the alpha byte is that of the input in both.
\<close>

theorem inverted_complement:
  assumes "activeTab cfg = Layers" and "2 \<le> layerCount cfg"
    and "0 \<le> selectedLayerIndex cfg" and "selectedLayerIndex cfg \<le> layerCount cfg - 2"
    and "int (length (thresholds cfg)) = layerCount cfg - 1"
  shows "\<exists>out out'. renderToContext cfg img = Inr out
    \<and> renderToContext (cfg\<lparr>inverted := \<not> inverted cfg\<rparr>) img = Inr out'
    \<and> length (data out) = length (data img) \<and> length (data out') = length (data img)
    \<and> (\<forall>p r g b a. 4 * p + 3 < length (data img) \<and> pixelAt (data img) p = (r, g, b, a) \<longrightarrow>
         (pixelAt (data out) p = (0, 0, 0, a) \<and> pixelAt (data out') p = (255, 255, 255, a))
         \<or> (pixelAt (data out) p = (255, 255, 255, a) \<and> pixelAt (data out') p = (0, 0, 0, a)))"
proof -
  let ?S = "sort (thresholds cfg)"
  let ?cfg' = "cfg\<lparr>inverted := \<not> inverted cfg\<rparr>"
  have tab': "activeTab ?cfg' = Layers" using assms(1) by simp
  from renderToContext_total [of cfg img] pixel_cut_total [OF assms(1)]
  obtain out where out: "renderToContext cfg img = Inr out" by blast
  from renderToContext_total [of ?cfg' img] pixel_cut_total [OF tab']
  obtain out' where out': "renderToContext ?cfg' img = Inr out'" by blast
  have flip: "(pixel cfg ?S bcs r g b = Inr (0, 0, 0) \<and> pixel ?cfg' ?S bcs' r g b = Inr (255, 255, 255))
     \<or> (pixel cfg ?S bcs r g b = Inr (255, 255, 255) \<and> pixel ?cfg' ?S bcs' r g b = Inr (0, 0, 0))"
    for bcs bcs' r g b
  proof (cases "cutMode cfg")
    case Stack
    let ?ti = "int (length ?S) - 1 - selectedLayerIndex cfg"
    have ti': "?ti = int (length ?S) - 1 - selectedLayerIndex ?cfg'" by simp
    have nn: "\<not> ?ti < 0" using assms(4,5) by simp
    with assms(3) have el: "elemAt ?S ?ti = Some (?S ! nat ?ti)"
      by (simp add: elemAt_def)
    have Stack': "cutMode ?cfg' = Stack" using Stack by simp
    show ?thesis
      by (simp add: pixel_stack(2) [OF assms(1) Stack refl nn el]
          pixel_stack(2) [OF tab' Stack' ti' nn el])
  next
    case Zone
    then have Zone': "cutMode ?cfg' = Zone" by simp
    show ?thesis
      by (simp add: pixel_zone [OF assms(1) Zone] pixel_zone [OF tab' Zone'] Let_def
          bucketIndexOf_def)
  qed
  have "(pixelAt (data out) p = (0, 0, 0, a) \<and> pixelAt (data out') p = (255, 255, 255, a))
         \<or> (pixelAt (data out) p = (255, 255, 255, a) \<and> pixelAt (data out') p = (0, 0, 0, a))"
    if "4 * p + 3 < length (data img)" "pixelAt (data img) p = (r, g, b, a)" for p r g b a
  proof -
    from renderToContext_pixel [OF out that] obtain r1 g1 b1 where
      px: "pixel cfg ?S (bucketColors cfg) (byteNum r) (byteNum g) (byteNum b) = Inr (r1, g1, b1)"
      and pa: "pixelAt (data out) p = (r1, g1, b1, a)"
      by blast
    from renderToContext_pixel [OF out' that] obtain r2 g2 b2 where
      px': "pixel ?cfg' ?S (bucketColors ?cfg') (byteNum r) (byteNum g) (byteNum b)
              = Inr (r2, g2, b2)"
      and pa': "pixelAt (data out') p = (r2, g2, b2, a)"
      by auto
    from flip [of "bucketColors cfg" "byteNum r" "byteNum g" "byteNum b" "bucketColors ?cfg'"]
      px px' pa pa'
    show ?thesis by auto
  qed
  with out out' renderToContext_length [OF out] renderToContext_length [OF out']
  show ?thesis by blast
qed

theorem inverted_complement_witness:
  "activeTab (scenarioConfig\<lparr>activeTab := Layers\<rparr>) = Layers
   \<and> 2 \<le> layerCount (scenarioConfig\<lparr>activeTab := Layers\<rparr>)
   \<and> 0 \<le> selectedLayerIndex (scenarioConfig\<lparr>activeTab := Layers\<rparr>)
   \<and> selectedLayerIndex (scenarioConfig\<lparr>activeTab := Layers\<rparr>)
        \<le> layerCount (scenarioConfig\<lparr>activeTab := Layers\<rparr>) - 2
   \<and> 4 * 5 + 3 < length (data scenarioImage)
   \<and> (\<exists>out out'.
         renderToContext (scenarioConfig\<lparr>activeTab := Layers\<rparr>) scenarioImage = Inr out
       \<and> renderToContext (scenarioConfig\<lparr>activeTab := Layers, inverted := True\<rparr>)
           scenarioImage = Inr out'
       \<and> (pixelAt (data out) 5 = (0, 0, 0, 255) \<and> pixelAt (data out') 5 = (255, 255, 255, 255)
          \<or> pixelAt (data out) 5 = (255, 255, 255, 255) \<and> pixelAt (data out') 5 = (0, 0, 0, 255)))"
proof -
  let ?cfg = "scenarioConfig\<lparr>activeTab := Layers\<rparr>"
  have h: "activeTab ?cfg = Layers" "2 \<le> layerCount ?cfg" "0 \<le> selectedLayerIndex ?cfg"
    "selectedLayerIndex ?cfg \<le> layerCount ?cfg - 2"
    "int (length (thresholds ?cfg)) = layerCount ?cfg - 1"
    by (simp_all add: scenarioConfig_def)
  have i: "?cfg\<lparr>inverted := \<not> inverted ?cfg\<rparr>
      = scenarioConfig\<lparr>activeTab := Layers, inverted := True\<rparr>"
    by (simp add: scenarioConfig_def)
  from scenarioImage_pixel [of 5]
  have p: "4 * 5 + 3 < length (data scenarioImage)
     \<and> pixelAt (data scenarioImage) 5 = (128, 128, 128, 255)"
    by simp
  from inverted_complement [OF h, of scenarioImage] obtain out out' where
    "renderToContext ?cfg scenarioImage = Inr out"
    "renderToContext (?cfg\<lparr>inverted := \<not> inverted ?cfg\<rparr>) scenarioImage = Inr out'"
    "\<And>p r g b a. 4 * p + 3 < length (data scenarioImage) \<and>
        pixelAt (data scenarioImage) p = (r, g, b, a) \<Longrightarrow>
        (pixelAt (data out) p = (0, 0, 0, a) \<and> pixelAt (data out') p = (255, 255, 255, a))
         \<or> (pixelAt (data out) p = (255, 255, 255, a) \<and> pixelAt (data out') p = (0, 0, 0, a))"
    by blast
  with p h(1-4) show ?thesis unfolding i by blast
qed

section \<open>Bounds on the arithmetic\<close>

lemma bitlen_nonneg: "0 \<le> bitlen n"
  by (induction n rule: bitlen.induct) (subst bitlen.simps, simp)

lemma bitlen_le: "n < 2 ^ k \<Longrightarrow> bitlen n \<le> int k"
proof (induction k arbitrary: n)
  case 0
  then show ?case by (subst bitlen.simps) simp
next
  case (Suc k)
  show ?case
  proof (cases "n \<le> 0")
    case True
    then show ?thesis by (subst bitlen.simps) simp
  next
    case False
    from Suc.prems have "n div 2 < 2 ^ k" by simp
    from Suc.IH [OF this] False show ?thesis by (subst bitlen.simps) simp
  qed
qed

lemma ilog2_le_7: "x \<le> 255 \<Longrightarrow> ilog2 x \<le> 7"
proof (cases "1 \<le> x")
  case True
  assume "x \<le> 255"
  then have "\<lfloor>x\<rfloor> < 2 ^ 8" by (simp add: floor_less_iff)
  from bitlen_le [OF this] True show ?thesis by (simp add: ilog2_def)
next
  case False
  with bitlen_nonneg [of "\<lceil>1 / x\<rceil> - 1"] show ?thesis by (simp add: ilog2_def)
qed

lemma roundHalfEven_le: "y \<le> of_int m \<Longrightarrow> roundHalfEven y \<le> m"
proof -
  assume a: "y \<le> of_int m"
  then have f: "\<lfloor>y\<rfloor> \<le> m" by (simp add: floor_le_iff)
  show ?thesis
  proof (cases "y = of_int \<lfloor>y\<rfloor>")
    case True
    then have "y - of_int \<lfloor>y\<rfloor> = 0" by simp
    with f show ?thesis by (simp add: roundHalfEven_def Let_def)
  next
    case False
    with of_int_floor_le [of y] have "of_int \<lfloor>y\<rfloor> < y" by linarith
    with a have "of_int \<lfloor>y\<rfloor> < (of_int m :: rat)" by simp
    then have "\<lfloor>y\<rfloor> < m" by simp
    then show ?thesis by (simp add: roundHalfEven_def Let_def)
  qed
qed

lemma roundHalfEven_ge: "of_int m \<le> y \<Longrightarrow> m \<le> roundHalfEven y"
proof -
  assume "of_int m \<le> y"
  then have "m \<le> \<lfloor>y\<rfloor>" by (simp add: le_floor_iff)
  then show ?thesis by (simp add: roundHalfEven_def Let_def)
qed

lemma roundHalfEven_of_int: "roundHalfEven (of_int k) = k"
  by (simp add: roundHalfEven_def)

lemma fl_bounds:
  assumes "0 \<le> x" and "x \<le> of_int c" and "c \<le> 255"
  shows "0 \<le> fl x \<and> fl x \<le> of_int c"
proof (cases "x = 0")
  case True
  with assms show ?thesis by (simp add: fl_def)
next
  case False
  with assms(1) have pos: "0 < x" by simp
  from assms(3) have "(of_int c :: rat) \<le> 255" by simp
  with assms(2) have "x \<le> 255" by linarith
  define k where "k = max (ilog2 \<bar>x\<bar>) (- 1022) - 52"
  define m where "m = nat (- k)"
  from pos \<open>x \<le> 255\<close> ilog2_le_7 [of x] have "k < 0" by (simp add: k_def)
  then have u: "pow2 k = 1 / 2 ^ m" by (simp add: pow2_def m_def)
  have flx: "fl x = of_int (roundHalfEven (x * 2 ^ m)) / 2 ^ m"
    using False by (simp add: fl_def Let_def k_def [symmetric] u)
  have "(0::rat) \<le> x * 2 ^ m" using pos by simp
  then have "of_int 0 \<le> x * 2 ^ m" by simp
  then have lo: "0 \<le> roundHalfEven (x * 2 ^ m)" by (rule roundHalfEven_ge)
  have "x * 2 ^ m \<le> of_int c * 2 ^ m" using assms(2) by simp
  then have "x * 2 ^ m \<le> of_int (c * 2 ^ m)" by simp
  then have hi: "roundHalfEven (x * 2 ^ m) \<le> c * 2 ^ m" by (rule roundHalfEven_le)
  then have "(of_int (roundHalfEven (x * 2 ^ m)) :: rat) \<le> of_int (c * 2 ^ m)"
    by (simp only: of_int_le_iff)
  then have "(of_int (roundHalfEven (x * 2 ^ m)) :: rat) / 2 ^ m \<le> of_int c"
    by (simp add: divide_le_eq)
  with lo flx show ?thesis by simp
qed

lemma toDouble_bounds:
  assumes "0 \<le> x" and "x \<le> of_int c" and "c \<le> 255"
  shows "\<exists>q. toDouble x = Fin q \<and> 0 \<le> q \<and> q \<le> of_int c"
proof -
  from fl_bounds [OF assms] have b: "0 \<le> fl x" "fl x \<le> of_int c" by simp_all
  from assms(3) have "(of_int c :: rat) \<le> 255" by simp
  with b(2) have "fl x \<le> 255" by linarith
  with b(1) ilog2_le_7 [of "fl x"] have "ilog2 \<bar>fl x\<bar> < 1024" by simp
  with b show ?thesis by (simp add: toDouble_def Let_def)
qed



section \<open>The composite render\<close>

lemma inkLoop_take:
  "nat n \<le> length inks \<Longrightarrow> inkLoop inks n c = foldl blendColors c (take (nat n) inks)"
proof -
  have "k \<le> length inks \<Longrightarrow>
        foldl (\<lambda>cur i. if i < length inks then blendColors cur (inks ! i) else cur) c [0..<k]
        = foldl blendColors c (take k inks)" for k
  proof (induction k)
    case 0
    then show ?case by simp
  next
    case (Suc k)
    then show ?case by (simp add: take_Suc_conv_app_nth)
  qed
  then show "nat n \<le> length inks \<Longrightarrow> ?thesis" by (simp add: inkLoop_def)
qed

lemma bucketColors_elem:
  assumes "activeTab cfg = Composite" and "isColorMode cfg"
    and "0 \<le> b" and "b < layerCount cfg"
  shows "elemAt (bucketColors cfg) b = Some (bucketColor cfg b)"
  using assms by (simp add: bucketColors_def elemAt_def)

lemma bucketColor_defined:
  assumes "layerCount cfg - 1 \<le> int (length (inkColors cfg))"
    and "0 \<le> b" and "b \<le> layerCount cfg - 1"
  shows "bucketColor cfg b =
     Some (if blendMode cfg = Multiply
           then foldl blendColors (hexToRgb (paperColor cfg))
                  (take (nat ((layerCount cfg - 1) - b)) (map hexToRgb (inkColors cfg)))
           else if 0 < (layerCount cfg - 1) - b
                then map hexToRgb (inkColors cfg) ! nat ((layerCount cfg - 1) - b - 1)
                else hexToRgb (paperColor cfg))"
proof -
  let ?n = "(layerCount cfg - 1) - b"
  from assms have "nat ?n \<le> length (map hexToRgb (inkColors cfg))" by simp
  moreover have "nat (?n - 1) < length (map hexToRgb (inkColors cfg))" if "0 < ?n"
    using that assms by simp
  ultimately show ?thesis
    using assms by (simp add: bucketColor_def Let_def elemAt_def inkLoop_take)
qed









section \<open>The ink compositor\<close>

lemma ilog2_le: "x < 2 ^ j \<Longrightarrow> ilog2 x \<le> int j"
proof (cases "1 \<le> x")
  case True
  assume "x < 2 ^ j"
  then have "\<lfloor>x\<rfloor> < 2 ^ j" by (simp add: floor_less_iff)
  from bitlen_le [OF this] True show ?thesis by (simp add: ilog2_def)
next
  case False
  with bitlen_nonneg [of "\<lceil>1 / x\<rceil> - 1"] show ?thesis by (simp add: ilog2_def)
qed

lemma toDouble_of_int:
  assumes "0 \<le> p" and "p < 2 ^ 52"
  shows "toDouble (of_int p) = Fin (of_int p)"
proof -
  have lg: "ilog2 \<bar>of_int p\<bar> \<le> 52"
    using ilog2_le [of "of_int p" 52] assms by simp
  have "fl (of_int p) = of_int p"
  proof (cases "p = 0")
    case True
    then show ?thesis by (simp add: fl_def)
  next
    case False
    define k where "k = max (ilog2 \<bar>of_int p\<bar>) (- 1022) - 52"
    define m where "m = nat (- k)"
    from lg have "k \<le> 0" by (simp add: k_def)
    then have u: "pow2 k = 1 / 2 ^ m" by (cases "k = 0") (simp_all add: pow2_def m_def)
    have "rat_of_int p * 2 ^ m = of_int (p * 2 ^ m)" by simp
    then have "roundHalfEven (of_int p * 2 ^ m) = p * 2 ^ m"
      by (simp only: roundHalfEven_of_int)
    with False show ?thesis
      by (simp add: fl_def Let_def k_def [symmetric] u)
  qed
  with lg show ?thesis by (simp add: toDouble_def Let_def)
qed

lemma floor_div_255:
  assumes "0 \<le> p" and "p \<le> 65025"
  shows "\<exists>y. toDouble (of_int p / 255) = Fin y \<and> \<lfloor>y\<rfloor> = p div 255"
proof -
  define x :: rat where "x = of_int p / 255"
  define q where "q = p div 255"
  have x0: "0 \<le> x" using assms(1) by (simp add: x_def)
  have x255: "x \<le> 255" using assms(2) by (simp add: x_def)
  have pq: "p = q * 255 + p mod 255" by (simp add: q_def)
  have qx: "of_int q \<le> x"
  proof -
    have "0 \<le> p mod 255" by simp
    with pq have "q * 255 \<le> p" by linarith
    then have "(of_int (q * 255) :: rat) \<le> of_int p" by (simp only: of_int_le_iff)
    then show ?thesis by (simp add: x_def le_divide_eq)
  qed
  have xq: "x \<le> of_int q + 254 / 255"
  proof -
    have "p mod 255 < 255" by simp
    with pq have "p \<le> q * 255 + 254" by linarith
    then have "(of_int p :: rat) \<le> of_int (q * 255 + 254)" by (simp only: of_int_le_iff)
    then show ?thesis by (simp add: x_def divide_le_eq)
  qed
  have fx: "of_int q \<le> fl x \<and> fl x < of_int q + 1"
  proof (cases "x = 0")
    case True
    then have "p = 0" by (simp add: x_def)
    then have "q = 0" by (simp add: q_def)
    with True show ?thesis by (simp add: fl_def)
  next
    case False
    define k where "k = max (ilog2 \<bar>x\<bar>) (- 1022) - 52"
    define m where "m = nat (- k)"
    from x0 x255 ilog2_le_7 [of x] have "k \<le> - 45" by (simp add: k_def)
    then have m45: "45 \<le> m" and u: "pow2 k = 1 / 2 ^ m"
      by (simp_all add: pow2_def m_def)
    have flx: "fl x = of_int (roundHalfEven (x * 2 ^ m)) / 2 ^ m"
      using False by (simp add: fl_def Let_def k_def [symmetric] u)
    have "of_int q * 2 ^ m \<le> x * 2 ^ m" using qx by simp
    then have "of_int (q * 2 ^ m) \<le> x * 2 ^ m" by simp
    then have lo: "q * 2 ^ m \<le> roundHalfEven (x * 2 ^ m)" by (rule roundHalfEven_ge)
    have "(2::rat) ^ 8 \<le> 2 ^ m" using m45 by (intro power_increasing) simp_all
    then have big: "(255::rat) \<le> 2 ^ m" by simp
    have "x * 2 ^ m \<le> (of_int q + 254 / 255) * 2 ^ m" using xq by simp
    also have "\<dots> = (of_int q + 1) * 2 ^ m - 2 ^ m / 255" by (simp add: field_simps)
    also have "\<dots> \<le> (of_int q + 1) * 2 ^ m - 1" using big by simp
    finally have "x * 2 ^ m \<le> of_int ((q + 1) * 2 ^ m - 1)" by simp
    then have hi: "roundHalfEven (x * 2 ^ m) \<le> (q + 1) * 2 ^ m - 1" by (rule roundHalfEven_le)
    from lo have "(of_int (q * 2 ^ m) :: rat) \<le> of_int (roundHalfEven (x * 2 ^ m))"
      by (simp only: of_int_le_iff)
    then have l: "of_int q \<le> fl x" by (simp add: flx le_divide_eq)
    from hi have "roundHalfEven (x * 2 ^ m) < (q + 1) * 2 ^ m" by simp
    then have "(of_int (roundHalfEven (x * 2 ^ m)) :: rat) < of_int ((q + 1) * 2 ^ m)"
      by (simp only: of_int_less_iff)
    then have "fl x < of_int q + 1" by (simp add: flx divide_less_eq)
    with l show ?thesis by simp
  qed
  then have fl_floor: "\<lfloor>fl x\<rfloor> = q" by (simp add: floor_unique)
  from toDouble_bounds [of x 255] x0 x255 obtain y where
    y: "toDouble x = Fin y" by auto
  from fl_bounds [of x 255] x0 x255 have "0 \<le> fl x" "fl x \<le> 255" by simp_all
  with ilog2_le_7 [of "fl x"] have "toDouble x = Fin (fl x)"
    by (simp add: toDouble_def Let_def)
  with fl_floor show ?thesis by (simp add: x_def q_def)
qed

lemma blend_channel:
  assumes "0 \<le> a" and "a \<le> 255" and "0 \<le> c" and "c \<le> 255"
  shows "Math_floor (js_div (js_mul (num a) (num c)) (num 255)) = num ((a * c) div 255)"
proof -
  have p0: "0 \<le> a * c" using assms by simp
  have "a * c \<le> 255 * 255" using assms by (intro mult_mono) simp_all
  then have p1: "a * c \<le> 65025" by simp
  then have "a * c < 2 ^ 52" by simp
  from toDouble_of_int [OF p0 this]
  have "js_mul (num a) (num c) = Fin (of_int (a * c))" by (simp add: num_def)
  moreover from floor_div_255 [OF p0 p1] obtain y where
    "toDouble (of_int (a * c) / 255) = Fin y" "\<lfloor>y\<rfloor> = (a * c) div 255"
    by blast
  ultimately show ?thesis by (simp add: num_def)
qed

lemma blendColors_rgbOf:
  assumes "0 \<le> a1 \<and> a1 \<le> 255" and "0 \<le> a2 \<and> a2 \<le> 255" and "0 \<le> a3 \<and> a3 \<le> 255"
    and "0 \<le> c1 \<and> c1 \<le> 255" and "0 \<le> c2 \<and> c2 \<le> 255" and "0 \<le> c3 \<and> c3 \<le> 255"
  shows "blendColors (rgbOf a1 a2 a3) (rgbOf c1 c2 c3)
         = rgbOf ((a1 * c1) div 255) ((a2 * c2) div 255) ((a3 * c3) div 255)"
  using assms by (simp add: blendColors_def rgbOf_def blend_channel)

lemma scenario_ink_stack:
  "foldl blendColors (hexToRgb ''#ffffff'') (map hexToRgb [''#facc15'', ''#ef4444''])
   = rgbOf 234 54 5"
  by code_simp

text \<open>
  C4. Colour mode of the composite, with \<open>layerCount - 1\<close> inks, for a bucket \<open>b\<close> from 0 to
  \<open>layerCount - 1\<close> and \<open>inksToApply = layerCount - 1 - b\<close>: under Multiply the colour of
  the bucket is the paper colour blended with the inks number \<open>0\<close> to \<open>inksToApply - 1\<close>,
  one after the other in this order; otherwise it is the ink number \<open>inksToApply - 1\<close> when
  \<open>inksToApply > 0\<close> and the paper colour when not. The blend of two colours with channels
  from 0 to 255 is \<open>floor (a * c / 255)\<close> in each channel. White paper blended with the
  ink \<open>(128, 64, 0)\<close> is \<open>(128, 64, 0)\<close>, and blended with it once more \<open>(64, 16, 0)\<close>.
\<close>

theorem ink_compositor:
  assumes "activeTab cfg = Composite" and "isColorMode cfg"
    and "int (length (inkColors cfg)) = layerCount cfg - 1"
    and "0 \<le> b" and "b \<le> layerCount cfg - 1"
  shows "(let inksToApply = (layerCount cfg - 1) - b;
              paper = hexToRgb (paperColor cfg);
              inks = map hexToRgb (inkColors cfg)
          in elemAt (bucketColors cfg) b =
               Some (Some (if blendMode cfg = Multiply
                           then foldl blendColors paper (take (nat inksToApply) inks)
                           else if 0 < inksToApply then inks ! nat (inksToApply - 1)
                                else paper)))
    \<and> (\<forall>a1 a2 a3 c1 c2 c3.
          0 \<le> a1 \<and> a1 \<le> 255 \<and> 0 \<le> a2 \<and> a2 \<le> 255 \<and> 0 \<le> a3 \<and> a3 \<le> 255
          \<and> 0 \<le> c1 \<and> c1 \<le> 255 \<and> 0 \<le> c2 \<and> c2 \<le> 255 \<and> 0 \<le> c3 \<and> c3 \<le> 255
          \<longrightarrow> blendColors (rgbOf a1 a2 a3) (rgbOf c1 c2 c3)
                = rgbOf ((a1 * c1) div 255) ((a2 * c2) div 255) ((a3 * c3) div 255))
    \<and> blendColors (rgbOf 255 255 255) (rgbOf 128 64 0) = rgbOf 128 64 0
    \<and> blendColors (blendColors (rgbOf 255 255 255) (rgbOf 128 64 0)) (rgbOf 128 64 0)
        = rgbOf 64 16 0"
proof -
  have inks: "layerCount cfg - 1 \<le> int (length (inkColors cfg))" using assms(3) by simp
  from assms(5) have "b < layerCount cfg" by simp
  from bucketColors_elem [OF assms(1,2,4) this] bucketColor_defined [OF inks assms(4,5)]
  have 1: "let inksToApply = (layerCount cfg - 1) - b;
              paper = hexToRgb (paperColor cfg);
              inks = map hexToRgb (inkColors cfg)
          in elemAt (bucketColors cfg) b =
               Some (Some (if blendMode cfg = Multiply
                           then foldl blendColors paper (take (nat inksToApply) inks)
                           else if 0 < inksToApply then inks ! nat (inksToApply - 1)
                                else paper))"
    by (simp add: Let_def)
  have 2: "blendColors (rgbOf 255 255 255) (rgbOf 128 64 0) = rgbOf 128 64 0"
    by (simp add: blendColors_rgbOf)
  have 3: "blendColors (blendColors (rgbOf 255 255 255) (rgbOf 128 64 0)) (rgbOf 128 64 0)
        = rgbOf 64 16 0"
    by (simp add: blendColors_rgbOf)
  from 1 2 3 blendColors_rgbOf show ?thesis by blast
qed

theorem ink_compositor_witness:
  "activeTab (scenarioConfig\<lparr>isColorMode := True\<rparr>) = Composite
   \<and> isColorMode (scenarioConfig\<lparr>isColorMode := True\<rparr>)
   \<and> int (length (inkColors (scenarioConfig\<lparr>isColorMode := True\<rparr>)))
       = layerCount (scenarioConfig\<lparr>isColorMode := True\<rparr>) - 1
   \<and> elemAt (bucketColors (scenarioConfig\<lparr>isColorMode := True\<rparr>)) 0
       = Some (Some (rgbOf 234 54 5))
   \<and> elemAt (bucketColors (scenarioConfig\<lparr>isColorMode := True, blendMode := Normal\<rparr>)) 0
       = Some (Some (hexToRgb ''#ef4444''))
   \<and> blendColors (rgbOf 255 204 0) (rgbOf 128 64 7) = rgbOf 128 51 0"
proof -
  let ?cfg = "scenarioConfig\<lparr>isColorMode := True\<rparr>"
  let ?cfg' = "scenarioConfig\<lparr>isColorMode := True, blendMode := Normal\<rparr>"
  have h: "activeTab ?cfg = Composite" "isColorMode ?cfg"
    "int (length (inkColors ?cfg)) = layerCount ?cfg - 1" "(0::int) \<le> 0" "0 \<le> layerCount ?cfg - 1"
    by (simp_all add: scenarioConfig_def)
  have h': "activeTab ?cfg' = Composite" "isColorMode ?cfg'"
    "int (length (inkColors ?cfg')) = layerCount ?cfg' - 1" "(0::int) \<le> 0" "0 \<le> layerCount ?cfg' - 1"
    by (simp_all add: scenarioConfig_def)
  from ink_compositor [OF h, THEN conjunct1] scenario_ink_stack
  have a: "elemAt (bucketColors ?cfg) 0 = Some (Some (rgbOf 234 54 5))"
    by (simp add: scenarioConfig_def)
  from ink_compositor [OF h', THEN conjunct1]
  have b: "elemAt (bucketColors ?cfg') 0 = Some (Some (hexToRgb ''#ef4444''))"
    by (simp add: scenarioConfig_def)
  from ink_compositor [OF h, THEN conjunct2, THEN conjunct1, rule_format, of 255 204 0 128 64 7]
  have c: "blendColors (rgbOf 255 204 0) (rgbOf 128 64 7) = rgbOf 128 51 0"
    by simp
  from h(1-3) a b c show ?thesis by simp
qed

section \<open>The crop transform\<close>

lemma applyCrop_normalized:
  "applyCrop (st\<lparr>cropRect := Some rc\<rparr>)
   = (applyCrop (st\<lparr>cropRect := Some (normalizedRect rc)\<rparr>))\<lparr>cropRect := Some rc\<rparr>"
  by (cases "originalImageRef st") (auto simp: applyCrop_def normalizedRect_def Let_def)

lemma applyCrop_degenerate:
  "rect_w rc = 0 \<or> rect_h rc = 0 \<Longrightarrow>
   applyCrop (st\<lparr>cropRect := Some rc\<rparr>) = st\<lparr>cropRect := Some rc\<rparr>"
  by (cases "originalImageRef st") (auto simp: applyCrop_def Let_def)

text \<open>
  C8. The crop of a rectangle and the crop of its normalised rectangle give the same state
  but for the rectangle kept in it: the same working image and the same dimensions. So do
  the rectangles \<open>(50, 50, -30, -20)\<close> and \<open>(20, 30, 30, 20)\<close>. A rectangle with \<open>w = 0\<close> or
  \<open>h = 0\<close> leaves the state as it is.
\<close>

theorem crop_normalization:
  "applyCrop (st\<lparr>cropRect := Some rc\<rparr>)
     = (applyCrop (st\<lparr>cropRect := Some (normalizedRect rc)\<rparr>))\<lparr>cropRect := Some rc\<rparr>
   \<and> sourceImageRef (applyCrop (st\<lparr>cropRect := Some rc\<rparr>))
     = sourceImageRef (applyCrop (st\<lparr>cropRect := Some (normalizedRect rc)\<rparr>))
   \<and> imageDimensions (applyCrop (st\<lparr>cropRect := Some rc\<rparr>))
     = imageDimensions (applyCrop (st\<lparr>cropRect := Some (normalizedRect rc)\<rparr>))
   \<and> normalizedRect \<lparr>rect_x = 50, rect_y = 50, rect_w = - 30, rect_h = - 20\<rparr>
     = \<lparr>rect_x = 20, rect_y = 30, rect_w = 30, rect_h = 20\<rparr>
   \<and> sourceImageRef
       (applyCrop (st\<lparr>cropRect := Some \<lparr>rect_x = 50, rect_y = 50, rect_w = - 30, rect_h = - 20\<rparr>\<rparr>))
     = sourceImageRef
       (applyCrop (st\<lparr>cropRect := Some \<lparr>rect_x = 20, rect_y = 30, rect_w = 30, rect_h = 20\<rparr>\<rparr>))
   \<and> (rect_w rc = 0 \<or> rect_h rc = 0 \<longrightarrow>
        applyCrop (st\<lparr>cropRect := Some rc\<rparr>) = st\<lparr>cropRect := Some rc\<rparr>)"
proof -
  have n: "normalizedRect \<lparr>rect_x = 50, rect_y = 50, rect_w = - 30, rect_h = - 20\<rparr>
     = \<lparr>rect_x = 20, rect_y = 30, rect_w = 30, rect_h = 20\<rparr>"
    by (simp add: normalizedRect_def)
  have s: "sourceImageRef (applyCrop (st\<lparr>cropRect := Some r\<rparr>))
     = sourceImageRef (applyCrop (st\<lparr>cropRect := Some (normalizedRect r)\<rparr>))" for r
    by (subst applyCrop_normalized) simp
  have d: "imageDimensions (applyCrop (st\<lparr>cropRect := Some rc\<rparr>))
     = imageDimensions (applyCrop (st\<lparr>cropRect := Some (normalizedRect rc)\<rparr>))"
    by (subst applyCrop_normalized) simp
  from s [of "\<lparr>rect_x = 50, rect_y = 50, rect_w = - 30, rect_h = - 20\<rparr>"] n
  have e: "sourceImageRef
       (applyCrop (st\<lparr>cropRect := Some \<lparr>rect_x = 50, rect_y = 50, rect_w = - 30, rect_h = - 20\<rparr>\<rparr>))
     = sourceImageRef
       (applyCrop (st\<lparr>cropRect := Some \<lparr>rect_x = 20, rect_y = 30, rect_w = 30, rect_h = 20\<rparr>\<rparr>))"
    by simp
  from applyCrop_normalized [where st = st and rc = rc] s [of rc] d n e
    applyCrop_degenerate [where st = st and rc = rc]
  show ?thesis by blast
qed

lemma crop_master:
  "applyCrop (cropState\<lparr>cropRect := Some \<lparr>rect_x = 1, rect_y = 0, rect_w = 1, rect_h = 2\<rparr>\<rparr>)
   = cropState\<lparr>cropRect := Some \<lparr>rect_x = 1, rect_y = 0, rect_w = 1, rect_h = 2\<rparr>,
       sourceImageRef := Some \<lparr>width = 1, height = 2, data = [5, 6, 7, 8, 13, 14, 15, 16]\<rparr>,
       imageDimensions := (1, 2),
       image := Some \<lparr>width = 1, height = 2, data = [5, 6, 7, 8, 13, 14, 15, 16]\<rparr>,
       isCropping := False\<rparr>"
  by code_simp

theorem crop_normalization_witness:
  "normalizedRect \<lparr>rect_x = 2, rect_y = 2, rect_w = - 1, rect_h = - 2\<rparr>
     = \<lparr>rect_x = 1, rect_y = 0, rect_w = 1, rect_h = 2\<rparr>
   \<and> sourceImageRef
       (applyCrop (cropState\<lparr>cropRect := Some \<lparr>rect_x = 2, rect_y = 2, rect_w = - 1, rect_h = - 2\<rparr>\<rparr>))
     = Some \<lparr>width = 1, height = 2, data = [5, 6, 7, 8, 13, 14, 15, 16]\<rparr>
   \<and> (rect_w \<lparr>rect_x = 1, rect_y = 1, rect_w = 0, rect_h = 1\<rparr> = 0
        \<or> rect_h \<lparr>rect_x = 1, rect_y = 1, rect_w = 0, rect_h = 1\<rparr> = 0)
   \<and> applyCrop (cropState\<lparr>cropRect := Some \<lparr>rect_x = 1, rect_y = 1, rect_w = 0, rect_h = 1\<rparr>\<rparr>)
     = cropState\<lparr>cropRect := Some \<lparr>rect_x = 1, rect_y = 1, rect_w = 0, rect_h = 1\<rparr>\<rparr>"
proof -
  let ?rc = "\<lparr>rect_x = 2, rect_y = 2, rect_w = - 1, rect_h = - 2\<rparr>"
  let ?z = "\<lparr>rect_x = 1, rect_y = 1, rect_w = 0, rect_h = 1\<rparr>"
  have n: "normalizedRect ?rc = \<lparr>rect_x = 1, rect_y = 0, rect_w = 1, rect_h = 2\<rparr>"
    by (simp add: normalizedRect_def)
  note T = crop_normalization [where st = cropState and rc = ?rc]
  note Z = crop_normalization [where st = cropState and rc = ?z]
  from T [THEN conjunct2, THEN conjunct1] n crop_master
  have a: "sourceImageRef (applyCrop (cropState\<lparr>cropRect := Some ?rc\<rparr>))
     = Some \<lparr>width = 1, height = 2, data = [5, 6, 7, 8, 13, 14, 15, 16]\<rparr>"
    by simp
  have z: "rect_w ?z = 0 \<or> rect_h ?z = 0" by simp
  from Z [THEN conjunct2, THEN conjunct2, THEN conjunct2, THEN conjunct2, THEN conjunct2,
      rule_format, OF z]
  have b: "applyCrop (cropState\<lparr>cropRect := Some ?z\<rparr>) = cropState\<lparr>cropRect := Some ?z\<rparr>" .
  from n a z b show ?thesis by simp
qed

section \<open>Malformed configurations\<close>

text \<open>
  C9, as the specification states it, fails: the configuration \<open>shortConfig\<close> has three
  layers and one threshold, and the render returns a buffer for it.
\<close>

theorem malformed_rejected_counterexample:
  "malformedConfiguration shortConfig
   \<and> renderToContext shortConfig onePixel
       = Inr \<lparr>width = 1, height = 1, data = [255, 255, 255, 255]\<rparr>"
  by code_simp

text \<open>
  C9, amended. The render validates nothing. For a malformed configuration in cut-guide
  mode or in the composite without colour mode it returns a buffer of the same dimensions,
  every pixel with the alpha byte of the input; the call fails only in the colour mode of
  the composite.
\<close>

theorem malformed_configuration_renders:
  assumes "malformedConfiguration cfg"
  shows "(\<not> (activeTab cfg = Composite \<and> isColorMode cfg) \<longrightarrow>
           (\<exists>out. renderToContext cfg img = Inr out
              \<and> width out = width img \<and> height out = height img
              \<and> length (data out) = length (data img)
              \<and> (\<forall>p r g b a. 4 * p + 3 < length (data img)
                     \<and> pixelAt (data img) p = (r, g, b, a) \<longrightarrow>
                   (\<exists>r' g' b'. pixelAt (data out) p = (r', g', b', a)))))
    \<and> (\<forall>e. renderToContext cfg img = Inl e \<longrightarrow> activeTab cfg = Composite \<and> isColorMode cfg)"
proof -
  have 1: "\<exists>out. renderToContext cfg img = Inr out
              \<and> width out = width img \<and> height out = height img
              \<and> length (data out) = length (data img)
              \<and> (\<forall>p r g b a. 4 * p + 3 < length (data img)
                     \<and> pixelAt (data img) p = (r, g, b, a) \<longrightarrow>
                   (\<exists>r' g' b'. pixelAt (data out) p = (r', g', b', a)))"
    if n: "\<not> (activeTab cfg = Composite \<and> isColorMode cfg)"
  proof -
    have "\<exists>t. pixel cfg (sort (thresholds cfg)) (bucketColors cfg) r g b = Inr t" for r g b
    proof (cases "activeTab cfg")
      case Composite
      with n have "\<not> isColorMode cfg" by simp
      then show ?thesis by (rule pixel_gray_total)
    next
      case Layers
      then show ?thesis by (rule pixel_cut_total)
    qed
    from renderToContext_total [of cfg img, OF this]
    obtain out where out: "renderToContext cfg img = Inr out" by blast
    have "\<exists>r' g' b'. pixelAt (data out) p = (r', g', b', a)"
      if "4 * p + 3 < length (data img)" "pixelAt (data img) p = (r, g, b, a)" for p r g b a
      using renderToContext_pixel [OF out that] by blast
    with out renderToContext_Inr(2,3) [OF out] renderToContext_length [OF out]
    show ?thesis by blast
  qed
  then have 2: "activeTab cfg = Composite \<and> isColorMode cfg"
    if "renderToContext cfg img = Inl e" for e
    using that by fastforce
  from 1 2 show ?thesis by blast
qed

theorem malformed_configuration_renders_witness:
  "malformedConfiguration shortConfig
   \<and> \<not> (activeTab shortConfig = Composite \<and> isColorMode shortConfig)
   \<and> 4 * 0 + 3 < length (data onePixel)
   \<and> pixelAt (data onePixel) 0 = (128, 128, 128, 255)
   \<and> (\<exists>out. renderToContext shortConfig onePixel = Inr out
         \<and> width out = 1 \<and> height out = 1 \<and> length (data out) = 4
         \<and> (\<exists>r' g' b'. pixelAt (data out) 0 = (r', g', b', 255)))"
proof -
  have m: "malformedConfiguration shortConfig"
    by (simp add: malformedConfiguration_def shortConfig_def scenarioConfig_def)
  have n: "\<not> (activeTab shortConfig = Composite \<and> isColorMode shortConfig)"
    by (simp add: shortConfig_def scenarioConfig_def)
  have p: "4 * 0 + 3 < length (data onePixel) \<and> pixelAt (data onePixel) 0 = (128, 128, 128, 255)"
    by (simp add: onePixel_def pixelAt_def)
  have d: "width onePixel = 1" "height onePixel = 1" "length (data onePixel) = 4"
    by (simp_all add: onePixel_def)
  from malformed_configuration_renders [OF m, of onePixel, THEN conjunct1, rule_format, OF n]
  obtain out where
    "renderToContext shortConfig onePixel = Inr out"
    "width out = width onePixel" "height out = height onePixel"
    "length (data out) = length (data onePixel)"
    "\<And>p r g b a. 4 * p + 3 < length (data onePixel) \<and> pixelAt (data onePixel) p = (r, g, b, a)
       \<Longrightarrow> \<exists>r' g' b'. pixelAt (data out) p = (r', g', b', a)"
    by blast
  with m n p d show ?thesis by (metis (no_types, lifting))
qed

section \<open>The luminance and the bucketizer\<close>

lemma roundingError_bounds: "0 < roundingError" "1000000 * roundingError \<le> 1"
  by (simp_all add: roundingError_def)

lemma roundHalfEven_error: "\<bar>of_int (roundHalfEven y) - y\<bar> \<le> (1 / 2 :: rat)"
proof -
  have "of_int \<lfloor>y\<rfloor> \<le> y" "y < of_int \<lfloor>y\<rfloor> + 1" by linarith+
  then show ?thesis by (auto simp: roundHalfEven_def Let_def)
qed

lemma fl_error:
  assumes "0 \<le> x" and "x < 1024"
  shows "\<bar>fl x - x\<bar> \<le> roundingError" and "0 \<le> fl x"
proof -
  have "\<bar>fl x - x\<bar> \<le> roundingError \<and> 0 \<le> fl x"
  proof (cases "x = 0")
    case True
    then show ?thesis by (simp add: fl_def roundingError_def)
  next
    case False
    define k where "k = max (ilog2 \<bar>x\<bar>) (- 1022) - 52"
    define m where "m = nat (- k)"
    from assms ilog2_le [of x 10] have "k \<le> - 42" by (simp add: k_def)
    then have m42: "42 \<le> m" and u: "pow2 k = 1 / 2 ^ m"
      by (simp_all add: pow2_def m_def)
    have flx: "fl x = of_int (roundHalfEven (x * 2 ^ m)) / 2 ^ m"
      using False by (simp add: fl_def Let_def k_def [symmetric] u)
    have "fl x - x = (of_int (roundHalfEven (x * 2 ^ m)) - x * 2 ^ m) / 2 ^ m"
      by (simp add: flx field_simps)
    then have "\<bar>fl x - x\<bar> = \<bar>of_int (roundHalfEven (x * 2 ^ m)) - x * 2 ^ m\<bar> / 2 ^ m"
      by (simp add: abs_divide)
    also have "\<dots> \<le> (1 / 2) / 2 ^ m"
      by (intro divide_right_mono roundHalfEven_error) simp
    also have "\<dots> \<le> (1 / 2) / 2 ^ 42"
      using m42 by (intro divide_left_mono power_increasing) simp_all
    also have "\<dots> = roundingError" by (simp add: roundingError_def)
    finally have e: "\<bar>fl x - x\<bar> \<le> roundingError" .
    have "of_int 0 \<le> x * 2 ^ m" using assms(1) by simp
    then have "0 \<le> roundHalfEven (x * 2 ^ m)" by (rule roundHalfEven_ge)
    then have "0 \<le> fl x" by (simp add: flx)
    with e show ?thesis by simp
  qed
  then show "\<bar>fl x - x\<bar> \<le> roundingError" and "0 \<le> fl x" by simp_all
qed

lemma toDouble_small:
  assumes "0 \<le> x" and "x < 1024"
  shows "toDouble x = Fin (fl x)"
proof -
  from fl_error [OF assms] roundingError_bounds assms(2)
  have "0 \<le> fl x" "fl x < 2048" by linarith+
  then have "0 \<le> fl x" "fl x < 2 ^ 11" by simp_all
  with ilog2_le [of "fl x" 11] show ?thesis by (simp add: toDouble_def Let_def)
qed

lemma weighted_channel:
  assumes "0 \<le> w" and "w \<le> 1" and "0 \<le> v" and "v \<le> 255"
  shows "\<exists>p. js_mul (toDouble w) (Fin v) = Fin p \<and> \<bar>p - w * v\<bar> \<le> 256 * roundingError
           \<and> 0 \<le> p \<and> p \<le> 256"
proof -
  define c where "c = fl w"
  from assms have w: "0 \<le> w" "w < 1024" by simp_all
  from fl_error [OF w] have c: "\<bar>c - w\<bar> \<le> roundingError" "0 \<le> c" by (simp_all add: c_def)
  have tw: "toDouble w = Fin c" by (simp add: toDouble_small [OF w] c_def)
  have "\<bar>c * v - w * v\<bar> = \<bar>c - w\<bar> * v"
    using assms(3) by (simp add: abs_mult left_diff_distrib [symmetric])
  also have "\<dots> \<le> roundingError * 255"
    using c(1) assms(3,4) by (intro mult_mono) simp_all
  finally have d: "\<bar>c * v - w * v\<bar> \<le> 255 * roundingError" by simp
  have wv: "w * v \<le> 1 * 255" using assms by (intro mult_mono) simp_all
  from d wv roundingError_bounds have cv: "c * v \<le> 255 + 255 * roundingError" by linarith
  have cv0: "0 \<le> c * v" using c(2) assms(3) by simp
  from cv roundingError_bounds have cv1: "c * v < 1024" by linarith
  define p where "p = fl (c * v)"
  from fl_error [OF cv0 cv1] have p: "\<bar>p - c * v\<bar> \<le> roundingError" "0 \<le> p"
    by (simp_all add: p_def)
  have "js_mul (toDouble w) (Fin v) = Fin p"
    by (simp add: tw toDouble_small [OF cv0 cv1] p_def)
  moreover from p(1) d have "\<bar>p - w * v\<bar> \<le> 256 * roundingError" by linarith
  moreover from p(1) cv roundingError_bounds have "p \<le> 256" by linarith
  ultimately show ?thesis using p(2) by blast
qed

lemma sum_double:
  assumes "0 \<le> x" and "x \<le> 513" and "0 \<le> y" and "y \<le> 256"
  shows "\<exists>s. js_add (Fin x) (Fin y) = Fin s \<and> \<bar>s - (x + y)\<bar> \<le> roundingError \<and> 0 \<le> s"
proof -
  from assms have a: "0 \<le> x + y" "x + y < 1024" by simp_all
  from fl_error [OF a] toDouble_small [OF a] show ?thesis by simp
qed

lemma byte_bounds:
  "0 \<le> (of_nat (unat (w :: 8 word)) :: rat) \<and> (of_nat (unat w) :: rat) \<le> 255"
proof -
  have "unat w < 256" using unsigned_less [of w, where ?'a = nat] by simp
  then have "unat w \<le> 255" by simp
  then have "(of_nat (unat w) :: rat) \<le> of_nat 255" by (simp only: of_nat_le_iff)
  then have "(of_nat (unat w) :: rat) \<le> 255" by (simp only: of_nat_numeral)
  moreover have "0 \<le> (of_nat (unat w) :: rat)" by (rule of_nat_0_le_iff)
  ultimately show ?thesis by blast
qed

lemma luminance_error:
  "\<exists>L. luminance r g b = Fin L \<and> \<bar>L - specLuminance r g b\<bar> \<le> 770 * roundingError"
proof -
  define vr :: rat where "vr = of_nat (unat r)"
  define vg :: rat where "vg = of_nat (unat g)"
  define vb :: rat where "vb = of_nat (unat b)"
  have v: "0 \<le> vr" "vr \<le> 255" "0 \<le> vg" "vg \<le> 255" "0 \<le> vb" "vb \<le> 255"
    unfolding vr_def vg_def vb_def using byte_bounds by blast+
  from weighted_channel [of "299 / 1000" vr] v obtain p1 where
    p1: "js_mul (toDouble (299 / 1000)) (Fin vr) = Fin p1"
      "\<bar>p1 - 299 / 1000 * vr\<bar> \<le> 256 * roundingError" "0 \<le> p1" "p1 \<le> 256"
    by auto
  from weighted_channel [of "587 / 1000" vg] v obtain p2 where
    p2: "js_mul (toDouble (587 / 1000)) (Fin vg) = Fin p2"
      "\<bar>p2 - 587 / 1000 * vg\<bar> \<le> 256 * roundingError" "0 \<le> p2" "p2 \<le> 256"
    by auto
  from weighted_channel [of "114 / 1000" vb] v obtain p3 where
    p3: "js_mul (toDouble (114 / 1000)) (Fin vb) = Fin p3"
      "\<bar>p3 - 114 / 1000 * vb\<bar> \<le> 256 * roundingError" "0 \<le> p3" "p3 \<le> 256"
    by auto
  from sum_double [of p1 p2] p1 p2 obtain s1 where
    s1: "js_add (Fin p1) (Fin p2) = Fin s1" "\<bar>s1 - (p1 + p2)\<bar> \<le> roundingError" "0 \<le> s1"
    by auto
  from s1(2) p1(4) p2(4) roundingError_bounds have "s1 \<le> 513" by linarith
  from sum_double [OF s1(3) this p3(3,4)] obtain s2 where
    s2: "js_add (Fin s1) (Fin p3) = Fin s2" "\<bar>s2 - (s1 + p3)\<bar> \<le> roundingError"
    by auto
  have "luminance r g b = Fin s2"
    unfolding luminance_def gray_def byteNum_def vr_def [symmetric] vg_def [symmetric]
      vb_def [symmetric]
    by (simp only: p1(1) p2(1) p3(1) s1(1) s2(1))
  moreover have "\<bar>s2 - specLuminance r g b\<bar> \<le> 770 * roundingError"
    unfolding specLuminance_def vr_def [symmetric] vg_def [symmetric] vb_def [symmetric]
    using p1(2) p2(2) p3(2) s1(2) s2(2) by linarith
  ultimately show ?thesis by blast
qed

lemma specLuminance_gap:
  assumes "specLuminance r g b \<noteq> of_int t"
  shows "1 / 1000 \<le> \<bar>specLuminance r g b - of_int t\<bar>"
proof -
  define n where "n = 299 * int (unat r) + 587 * int (unat g) + 114 * int (unat b)"
  have sl: "specLuminance r g b = of_int n / 1000"
    unfolding specLuminance_def n_def by (simp only: of_int_add of_int_mult of_int_of_nat_eq
        of_int_numeral) (simp add: field_simps)
  with assms have "n \<noteq> 1000 * t" by auto
  then have "1 \<le> \<bar>n - 1000 * t\<bar>" by linarith
  then have "(of_int 1 :: rat) \<le> of_int \<bar>n - 1000 * t\<bar>" by (simp only: of_int_le_iff)
  then have "(1 :: rat) \<le> \<bar>of_int n - 1000 * of_int t\<bar>" by simp
  then show ?thesis unfolding sl by (simp add: field_simps abs_le_iff le_diff_eq)
qed

lemma luminance_lt_agrees:
  assumes "specLuminance r g b \<noteq> of_int t"
  shows "js_lt (luminance r g b) (num t) = (specLuminance r g b < of_int t)"
proof -
  from luminance_error [of r g b] obtain L where
    L: "luminance r g b = Fin L" "\<bar>L - specLuminance r g b\<bar> \<le> 770 * roundingError"
    by blast
  from specLuminance_gap [OF assms] L(2) roundingError_bounds
  have "(L < of_int t) = (specLuminance r g b < of_int t)" by linarith
  with L(1) show ?thesis by (simp add: num_def)
qed

lemma bucketLoop_firstGreater:
  "(\<And>t. t \<in> set S \<Longrightarrow> js_lt L (num t) = (SL < of_int t)) \<Longrightarrow>
   bucketLoop L S k d = (case firstGreater SL S of Some t \<Rightarrow> int (k + t) | None \<Rightarrow> d)"
proof (induction S arbitrary: k)
  case Nil
  then show ?case by simp
next
  case (Cons x xs)
  have "bucketLoop L xs (Suc k) d =
          (case firstGreater SL xs of Some t \<Rightarrow> int (Suc k + t) | None \<Rightarrow> d)"
    by (rule Cons.IH) (simp add: Cons.prems)
  moreover have "js_lt L (num x) = (SL < of_int x)" by (rule Cons.prems) simp
  ultimately show ?case by (simp split: option.splits)
qed

text \<open>
  C1, as the specification states it, fails. With four layers and their default thresholds
  64, 128 and 191, the luminance of the pixel \<open>(128, 128, 128)\<close> is the threshold 128, so
  the pixel belongs to bucket 2; the source computes a luminance just below 128 and puts it
  into bucket 1, and the composite shows the grey 85 of bucket 1.
\<close>

theorem bucketizer_tie_counterexample:
  "sorted [64, 128, 191 :: int]
   \<and> int (length [64, 128, 191 :: int]) = layerCount fourLayerConfig - 1
   \<and> specLuminance 128 128 128 = of_int ([64, 128, 191] ! 1)
   \<and> specBucket (layerCount fourLayerConfig) [64, 128, 191] (specLuminance 128 128 128) = 2
   \<and> bucketIndexOf fourLayerConfig [64, 128, 191] (luminance 128 128 128) = 1
   \<and> renderToContext fourLayerConfig onePixel
       = Inr \<lparr>width = 1, height = 1, data = [85, 85, 85, 255]\<rparr>"
  by code_simp

text \<open>
  C1, amended. The luminance of a pixel is \<open>0.299 * R + 0.587 * G + 0.114 * B\<close> evaluated as the
  source does, in double precision from left to right, every product and sum rounded; it
  lies within \<open>770 / 2 ^ 43\<close> of the sum without rounding. The bucket of the pixel is the
  index of the first threshold strictly greater than the computed luminance, and
  \<open>layerCount - 1\<close> when no threshold is greater. With sorted thresholds, \<open>layerCount - 1\<close>
  of them, a computed luminance equal to the threshold number \<open>t\<close> falls into a bucket
  above \<open>t\<close>, the bucket \<open>t + 1\<close> when the thresholds are distinct. Whenever the sum
  without rounding equals no threshold, the bucket is the one of that sum: the index of
  the first threshold strictly greater than it, or \<open>layerCount - 1\<close>.
\<close>

theorem bucketizer_computed_luminance:
  "luminance r g b =
     js_add (js_add (js_mul (toDouble (299 / 1000)) (byteNum r))
                    (js_mul (toDouble (587 / 1000)) (byteNum g)))
            (js_mul (toDouble (114 / 1000)) (byteNum b))
   \<and> (\<exists>L. luminance r g b = Fin L \<and> \<bar>L - specLuminance r g b\<bar> \<le> 770 / 2 ^ 43)
   \<and> (\<forall>t. t < length S \<and> js_lt (luminance r g b) (num (S ! t))
            \<and> (\<forall>j<t. \<not> js_lt (luminance r g b) (num (S ! j)))
        \<longrightarrow> bucketIndexOf cfg S (luminance r g b) = int t)
   \<and> ((\<forall>t<length S. \<not> js_lt (luminance r g b) (num (S ! t)))
        \<longrightarrow> bucketIndexOf cfg S (luminance r g b) = layerCount cfg - 1)
   \<and> (sorted S \<and> int (length S) = layerCount cfg - 1
        \<longrightarrow> (\<forall>t<length S. luminance r g b = num (S ! t)
               \<longrightarrow> int t < bucketIndexOf cfg S (luminance r g b)
                 \<and> (distinct S \<longrightarrow> bucketIndexOf cfg S (luminance r g b) = int t + 1)))
   \<and> ((\<forall>t\<in>set S. specLuminance r g b \<noteq> of_int t)
        \<longrightarrow> bucketIndexOf cfg S (luminance r g b)
              = specBucket (layerCount cfg) S (specLuminance r g b))"
proof (intro conjI allI impI)
  show "luminance r g b =
     js_add (js_add (js_mul (toDouble (299 / 1000)) (byteNum r))
                    (js_mul (toDouble (587 / 1000)) (byteNum g)))
            (js_mul (toDouble (114 / 1000)) (byteNum b))"
    by (simp add: luminance_def gray_def)
next
  from luminance_error [of r g b]
  show "\<exists>L. luminance r g b = Fin L \<and> \<bar>L - specLuminance r g b\<bar> \<le> 770 / 2 ^ 43"
    by (simp add: roundingError_def)
next
  fix t
  assume "t < length S \<and> js_lt (luminance r g b) (num (S ! t))
            \<and> (\<forall>j<t. \<not> js_lt (luminance r g b) (num (S ! j)))"
  then show "bucketIndexOf cfg S (luminance r g b) = int t"
    by (simp add: bucketIndexOf_def bucketLoop_first)
next
  assume "\<forall>t<length S. \<not> js_lt (luminance r g b) (num (S ! t))"
  then show "bucketIndexOf cfg S (luminance r g b) = layerCount cfg - 1"
    by (simp add: bucketIndexOf_def bucketLoop_none)
next
  fix t
  assume a: "sorted S \<and> int (length S) = layerCount cfg - 1" "t < length S"
    "luminance r g b = num (S ! t)"
  then have eq: "bucketIndexOf cfg S (luminance r g b) = bucketLoop (luminance r g b) S 0 (int (length S))"
    by (simp add: bucketIndexOf_def)
  from a show "int t < bucketIndexOf cfg S (luminance r g b)"
    unfolding eq by (intro bucketLoop_tie(1)) auto
  assume "distinct S"
  with a show "bucketIndexOf cfg S (luminance r g b) = int t + 1"
    unfolding eq by (intro bucketLoop_tie(2)) auto
next
  assume ne: "\<forall>t\<in>set S. specLuminance r g b \<noteq> of_int t"
  have "bucketLoop (luminance r g b) S 0 (layerCount cfg - 1) =
          (case firstGreater (specLuminance r g b) S of
             Some t \<Rightarrow> int (0 + t) | None \<Rightarrow> layerCount cfg - 1)"
    by (rule bucketLoop_firstGreater) (simp add: luminance_lt_agrees ne)
  then show "bucketIndexOf cfg S (luminance r g b)
              = specBucket (layerCount cfg) S (specLuminance r g b)"
    by (simp add: bucketIndexOf_def specBucket_def split: option.splits)
qed

lemma specLuminance_128: "specLuminance 128 128 128 = 128"
  by (simp add: specLuminance_def)

theorem bucketizer_computed_luminance_witness:
  "(1 :: nat) < length [85, 170 :: int]
   \<and> js_lt (luminance 128 128 128) (num ([85, 170] ! 1))
   \<and> bucketIndexOf scenarioConfig [85, 170] (luminance 128 128 128) = 1
   \<and> sorted [0, 170 :: int]
   \<and> luminance 0 0 0 = num ([0, 170] ! 0)
   \<and> bucketIndexOf scenarioConfig [0, 170] (luminance 0 0 0) = 1
   \<and> specLuminance 128 128 128 \<noteq> of_int 85 \<and> specLuminance 128 128 128 \<noteq> of_int 170
   \<and> specBucket (layerCount scenarioConfig) [85, 170] (specLuminance 128 128 128) = 1"
proof -
  have h1: "(1 :: nat) < length [85, 170 :: int]
      \<and> js_lt (luminance 128 128 128) (num ([85, 170] ! 1))
      \<and> (\<forall>j<1. \<not> js_lt (luminance 128 128 128) (num ([85, 170] ! j)))"
    by (simp add: luminance_128 num_def)
  have h2: "sorted [0, 170 :: int] \<and> int (length [0, 170 :: int]) = layerCount scenarioConfig - 1"
    by (simp add: scenarioConfig_def)
  have h3: "(0 :: nat) < length [0, 170 :: int]" by simp
  have h4: "luminance 0 0 0 = num ([0, 170] ! 0)" by (simp add: luminance_0)
  have d: "distinct [0, 170 :: int]" by simp
  have h5: "\<forall>t\<in>set [85, 170 :: int]. specLuminance 128 128 128 \<noteq> of_int t"
    by (simp add: specLuminance_128)
  note A = bucketizer_computed_luminance
    [where r = 128 and g = 128 and b = 128 and S = "[85, 170]" and cfg = scenarioConfig]
  note B = bucketizer_computed_luminance
    [where r = 0 and g = 0 and b = 0 and S = "[0, 170]" and cfg = scenarioConfig]
  from A [THEN conjunct2, THEN conjunct2, THEN conjunct1, rule_format, OF h1]
  have a: "bucketIndexOf scenarioConfig [85, 170] (luminance 128 128 128) = 1" by simp
  from B [THEN conjunct2, THEN conjunct2, THEN conjunct2, THEN conjunct2, THEN conjunct1,
      rule_format, OF h2 h3 h4] d
  have b: "bucketIndexOf scenarioConfig [0, 170] (luminance 0 0 0) = 1" by simp
  from A [THEN conjunct2, THEN conjunct2, THEN conjunct2, THEN conjunct2, THEN conjunct2,
      THEN mp, OF h5] a
  have c: "specBucket (layerCount scenarioConfig) [85, 170] (specLuminance 128 128 128) = 1"
    by simp
  from h1 h2 h4 h5 a b c show ?thesis by simp
qed

end
